theory Spec2Isabelle
  imports Main "HOL-Library.Word"
begin

unbundle bit_operations_syntax

section \<open>Limits\<close>

text \<open>
  The constants of \<^verbatim>\<open>scripts/grok-personality-filter.c\<close>. Counters and indices of the
  program are C \<^verbatim>\<open>int\<close>s; every one of them is bounded by the number of stored tokens
  (at most \<open>MAX_TOKENS\<close>) plus the window radius, so they are modelled as \<open>nat\<close> and
  \<open>int\<close> without wrap-around. Only the hash value is a machine word.
\<close>

definition MAX_TOKENS :: nat where "MAX_TOKENS = 2000000"
definition MAX_WORD_LEN :: nat where "MAX_WORD_LEN = 64"
definition HASH_SIZE :: nat where "HASH_SIZE = 4096"
definition MAX_HIT_LOG :: nat where "MAX_HIT_LOG = 8192"
definition MAX_PARAGRAPHS :: nat where "MAX_PARAGRAPHS = 4096"

section \<open>Characters (the C locale of \<^verbatim>\<open>ctype.h\<close>)\<close>

text \<open>
  Neither program calls \<^verbatim>\<open>setlocale\<close>, so \<^verbatim>\<open>isalpha\<close> and \<^verbatim>\<open>tolower\<close> are those of the
  C locale: the ASCII letters. A C string ends at its first NUL byte; the tokenizer never
  stores one, since NUL is not a word character.
\<close>

definition isalpha :: "char \<Rightarrow> bool" where
  "isalpha c = (let n = (of_char c :: nat) in (65 \<le> n \<and> n \<le> 90) \<or> (97 \<le> n \<and> n \<le> 122))"

definition tolower :: "char \<Rightarrow> char" where
  "tolower c = (let n = (of_char c :: nat) in if 65 \<le> n \<and> n \<le> 90 then char_of (n + 32) else c)"

definition lowercase :: "string \<Rightarrow> string" where
  "lowercase s = map tolower s"

definition is_word_char :: "char \<Rightarrow> bool" where
  "is_word_char c = (isalpha c \<or> c = CHR 0x27 \<or> c = CHR ''-'')"

section \<open>The hash set\<close>

text \<open>
  \<^verbatim>\<open>HashSet\<close>: \<open>slots pos\<close> is \<open>None\<close> where \<^verbatim>\<open>used[pos]\<close> is 0 and \<open>Some w\<close> where it
  is 1 and \<^verbatim>\<open>words[pos]\<close> holds \<open>w\<close>.
\<close>

record HashSet =
  slots :: "nat \<Rightarrow> string option"
  count :: nat

fun hash_loop :: "32 word \<Rightarrow> string \<Rightarrow> 32 word" where
  "hash_loop h [] = h"
| "hash_loop h (c # s) = hash_loop ((push_bit 5 h + h) XOR of_char c) s"

definition hash_str :: "string \<Rightarrow> 32 word" where
  "hash_str s = hash_loop 5381 s"

definition hs_init :: HashSet where
  "hs_init = \<lparr>slots = (\<lambda>_. None), count = 0\<rparr>"

definition probe_pos :: "string \<Rightarrow> nat \<Rightarrow> nat" where
  "probe_pos w i = unat (((hash_str w AND 4095) + of_nat i) AND (4095 :: 32 word))"

text \<open>The probing loops run \<open>i\<close> from 0 to \<open>HASH_SIZE - 1\<close>; \<open>k\<close> counts the rounds left.\<close>

fun hs_insert_loop :: "nat \<Rightarrow> nat \<Rightarrow> HashSet \<Rightarrow> string \<Rightarrow> HashSet" where
  "hs_insert_loop 0 i hs w = hs"
| "hs_insert_loop (Suc k) i hs w =
     (let pos = probe_pos w i in
      case slots hs pos of
        None \<Rightarrow> hs\<lparr>slots := (slots hs)(pos \<mapsto> take (MAX_WORD_LEN - 1) w), count := count hs + 1\<rparr>
      | Some v \<Rightarrow> if v = w then hs else hs_insert_loop k (Suc i) hs w)"

definition hs_insert :: "HashSet \<Rightarrow> string \<Rightarrow> HashSet" where
  "hs_insert hs w = hs_insert_loop HASH_SIZE 0 hs w"

fun hs_contains_loop :: "nat \<Rightarrow> nat \<Rightarrow> HashSet \<Rightarrow> string \<Rightarrow> bool" where
  "hs_contains_loop 0 i hs w = False"
| "hs_contains_loop (Suc k) i hs w =
     (case slots hs (probe_pos w i) of
        None \<Rightarrow> False
      | Some v \<Rightarrow> if v = w then True else hs_contains_loop k (Suc i) hs w)"

definition hs_contains :: "HashSet \<Rightarrow> string \<Rightarrow> bool" where
  "hs_contains hs w = hs_contains_loop HASH_SIZE 0 hs w"

section \<open>Tokens, hits and the co-occurrence window\<close>

record Token =
  word :: string
  is_void :: bool
  is_personality :: bool
  para_id :: nat
  byte_offset :: nat

datatype classification = P | A | R

record VoidHit =
  token_idx :: nat
  has_personality :: bool
  has_technical :: bool
  personality_count :: nat
  technical_count :: nat
  classification :: classification

text \<open>
  The window scan \<^verbatim>\<open>for (j = lo; j <= hi; j++)\<close> of \<^verbatim>\<open>main\<close>. The state is
  \<open>(pers_count, tech_count, tr)\<close>, where \<open>tr\<close> records, in order, every index \<open>j\<close> at
  which the loop reads \<^verbatim>\<open>tokens[j]\<close>.
\<close>

function scan_window ::
  "HashSet \<Rightarrow> Token list \<Rightarrow> int \<Rightarrow> int \<Rightarrow> int \<Rightarrow> nat \<times> nat \<times> int list \<Rightarrow> nat \<times> nat \<times> int list" where
  "scan_window tech toks i j hi (pc, tc, tr) =
     (if j \<le> hi then
        (if j = i then scan_window tech toks i (j + 1) hi (pc, tc, tr)
         else scan_window tech toks i (j + 1) hi
                (if is_personality (toks ! nat j) then pc + 1 else pc,
                 if hs_contains tech (word (toks ! nat j)) then tc + 1 else tc,
                 tr @ [j]))
      else (pc, tc, tr))"
  by pat_completeness auto
termination
  by (relation "measure (\<lambda>(tech, toks, i, j, hi, acc). nat (hi + 1 - j))") auto

definition window_lo :: "int \<Rightarrow> int \<Rightarrow> int" where
  "window_lo i window = (if i - window < 0 then 0 else i - window)"

definition window_hi :: "int \<Rightarrow> int \<Rightarrow> int \<Rightarrow> int" where
  "window_hi n i window = (if i + window \<ge> n then n - 1 else i + window)"

definition scan_hit :: "HashSet \<Rightarrow> Token list \<Rightarrow> int \<Rightarrow> nat \<Rightarrow> nat \<times> nat \<times> int list" where
  "scan_hit tech toks window i =
     scan_window tech toks (int i) (window_lo (int i) window)
       (window_hi (int (length toks)) (int i) window) (0, 0, [])"

definition classify :: "nat \<Rightarrow> nat \<Rightarrow> classification" where
  "classify pers_count tech_count =
     (if pers_count > 0 then P else if tech_count > 0 then A else R)"

definition classify_hit :: "HashSet \<Rightarrow> Token list \<Rightarrow> int \<Rightarrow> nat \<Rightarrow> VoidHit" where
  "classify_hit tech toks window i =
     (case scan_hit tech toks window i of (pers_count, tech_count, tr) \<Rightarrow>
        \<lparr>token_idx = i,
         has_personality = (pers_count > 0),
         has_technical = (tech_count > 0),
         personality_count = pers_count,
         technical_count = tech_count,
         classification = classify pers_count tech_count\<rparr>)"

section \<open>Paragraphs and the tokenizer\<close>

text \<open>
  \<^verbatim>\<open>Paragraph\<close>, with the fields of the struct. The static array \<^verbatim>\<open>paragraphs\<close> is a
  function from the index; a static array starts zeroed.
\<close>

record Paragraph =
  start_token :: nat
  end_token :: nat
  void_hits :: nat
  personality_hits :: nat
  technical_hits :: nat
  personality_void :: nat
  residual_void :: nat
  total_tokens :: nat

definition zero_paragraph :: Paragraph where
  "zero_paragraph = \<lparr>start_token = 0, end_token = 0, void_hits = 0, personality_hits = 0,
     technical_hits = 0, personality_void = 0, residual_void = 0, total_tokens = 0\<rparr>"

text \<open>
  The tokenizer's variables. \<open>tokens\<close> is the filled part \<^verbatim>\<open>tokens[0 .. n_tokens-1]\<close> of
  the array, so \<^verbatim>\<open>n_tokens\<close> is its length; \<open>wbuf\<close> is \<^verbatim>\<open>word[0 .. wpos-1]\<close>, so
  \<^verbatim>\<open>wpos\<close> is its length; \<open>cur_para_id\<close> is the local \<^verbatim>\<open>para_id\<close> of \<^verbatim>\<open>main\<close>.
\<close>

record tstate =
  tokens :: "Token list"
  cur_para_id :: nat
  newline_count :: nat
  para_start :: nat
  paragraphs :: "nat \<Rightarrow> Paragraph"
  n_paragraphs :: nat
  wbuf :: string
  byte_pos :: nat
  word_start :: nat

definition close_paragraph :: "tstate \<Rightarrow> tstate" where
  "close_paragraph s =
     (let n = length (tokens s); np = n_paragraphs s;
          ps = (paragraphs s)(np := (paragraphs s np)\<lparr>end_token := n,
                  total_tokens := n - start_token (paragraphs s np)\<rparr>)
      in s\<lparr>paragraphs := (if np < MAX_PARAGRAPHS - 1
                            then ps(Suc np := zero_paragraph\<lparr>start_token := n\<rparr>) else ps),
           n_paragraphs := (if np < MAX_PARAGRAPHS - 1 then Suc np else np),
           cur_para_id := cur_para_id s + 1,
           para_start := n,
           newline_count := 0\<rparr>)"

definition newline_step :: "tstate \<Rightarrow> char \<Rightarrow> tstate" where
  "newline_step s c =
     (if c = CHR 0x0A then
        (let s1 = s\<lparr>newline_count := newline_count s + 1\<rparr> in
         if newline_count s1 \<ge> 2 \<and> length (tokens s1) > para_start s1
         then close_paragraph s1 else s1)
      else if c \<noteq> CHR 0x0D then s\<lparr>newline_count := 0\<rparr>
      else s)"

definition make_token :: "HashSet \<Rightarrow> HashSet \<Rightarrow> tstate \<Rightarrow> string \<Rightarrow> Token" where
  "make_token void_set pers_set s w =
     \<lparr>word = take (MAX_WORD_LEN - 1) w,
      is_void = hs_contains void_set w,
      is_personality = hs_contains pers_set w,
      para_id = cur_para_id s,
      byte_offset = word_start s\<rparr>"

definition flush_word :: "HashSet \<Rightarrow> HashSet \<Rightarrow> tstate \<Rightarrow> tstate" where
  "flush_word void_set pers_set s =
     (let w = lowercase (wbuf s) in
      if length (wbuf s) \<ge> 2 \<and> isalpha (hd w) \<and> length (tokens s) < MAX_TOKENS
      then s\<lparr>tokens := tokens s @ [make_token void_set pers_set s w]\<rparr>
      else s)"

definition word_step :: "HashSet \<Rightarrow> HashSet \<Rightarrow> tstate \<Rightarrow> char \<Rightarrow> tstate" where
  "word_step void_set pers_set s c =
     (if is_word_char c then
        s\<lparr>word_start := (if wbuf s = [] then byte_pos s else word_start s),
          wbuf := (if length (wbuf s) < MAX_WORD_LEN - 1 then wbuf s @ [c] else wbuf s)\<rparr>
      else if wbuf s \<noteq> [] then (flush_word void_set pers_set s)\<lparr>wbuf := []\<rparr>
      else s)"

definition tok_char :: "HashSet \<Rightarrow> HashSet \<Rightarrow> tstate \<Rightarrow> char \<Rightarrow> tstate" where
  "tok_char void_set pers_set s c =
     word_step void_set pers_set (newline_step (s\<lparr>byte_pos := byte_pos s + 1\<rparr>) c) c"

text \<open>One input stream: the \<^verbatim>\<open>fgetc\<close> loop, then the flush of the last word at EOF.\<close>

definition tok_file :: "HashSet \<Rightarrow> HashSet \<Rightarrow> tstate \<Rightarrow> string \<Rightarrow> tstate" where
  "tok_file void_set pers_set s cs =
     (let s1 = foldl (tok_char void_set pers_set)
                 (s\<lparr>wbuf := [], byte_pos := 0, word_start := 0\<rparr>) cs
      in if wbuf s1 \<noteq> [] then flush_word void_set pers_set s1 else s1)"

definition tok_init :: tstate where
  "tok_init = \<lparr>tokens = [], cur_para_id = 0, newline_count = 0, para_start = 0,
     paragraphs = (\<lambda>_. zero_paragraph), n_paragraphs = 0,
     wbuf = [], byte_pos = 0, word_start = 0\<rparr>"

definition close_final :: "tstate \<Rightarrow> tstate" where
  "close_final s =
     (let n = length (tokens s); np = n_paragraphs s;
          ps = (paragraphs s)(np := (paragraphs s np)\<lparr>end_token := n,
                  total_tokens := n - start_token (paragraphs s np)\<rparr>)
      in s\<lparr>paragraphs := ps,
           n_paragraphs := (if total_tokens (ps np) > 0 then Suc np else np)\<rparr>)"

text \<open>The whole tokenizing part of \<^verbatim>\<open>main\<close>, over the opened input streams in order.\<close>

definition tokenize :: "HashSet \<Rightarrow> HashSet \<Rightarrow> string list \<Rightarrow> tstate" where
  "tokenize void_set pers_set inputs =
     close_final (foldl (tok_file void_set pers_set) tok_init inputs)"

text \<open>The sections the program reports: \<^verbatim>\<open>paragraphs[0 .. n_paragraphs-1]\<close>.\<close>

definition sections_of :: "(nat \<Rightarrow> Paragraph) \<Rightarrow> nat \<Rightarrow> Paragraph list" where
  "sections_of ps np = map ps [0..<np]"

section \<open>Classification of the void hits\<close>

text \<open>
  The locals of \<^verbatim>\<open>main\<close> that the classification loop updates. \<open>hits\<close> is the filled
  part of the hit log, so \<^verbatim>\<open>n_hits\<close> is its length. \<open>c_personality_void\<close> and
  \<open>c_residual_void\<close> are the corpus-level locals \<^verbatim>\<open>personality_void\<close> and
  \<^verbatim>\<open>residual_void\<close> (the struct fields of the same names are those of \<open>Paragraph\<close>);
  \<open>c_paragraphs\<close> is the array \<^verbatim>\<open>paragraphs\<close>.
\<close>

record cstate =
  hits :: "VoidHit list"
  total_void :: nat
  c_personality_void :: nat
  c_residual_void :: nat
  anomalous_void :: nat
  total_personality_markers :: nat
  total_technical_markers :: nat
  c_paragraphs :: "nat \<Rightarrow> Paragraph"

text \<open>
  \<^verbatim>\<open>for (p = 0; p < n_paragraphs; p++) if (i >= start && i < end) { ...; break; }\<close>,
  with \<open>f\<close> the update of the paragraph found.
\<close>

function para_update ::
  "(Paragraph \<Rightarrow> Paragraph) \<Rightarrow> nat \<Rightarrow> nat \<Rightarrow> nat \<Rightarrow> (nat \<Rightarrow> Paragraph) \<Rightarrow> (nat \<Rightarrow> Paragraph)" where
  "para_update f np i p ps =
     (if p < np then
        (if i \<ge> start_token (ps p) \<and> i < end_token (ps p) then ps(p := f (ps p))
         else para_update f np i (Suc p) ps)
      else ps)"
  by pat_completeness auto
termination
  by (relation "measure (\<lambda>(f, np, i, p, ps). np - p)") auto

definition count_hit :: "classification \<Rightarrow> Paragraph \<Rightarrow> Paragraph" where
  "count_hit cl q =
     (let q1 = q\<lparr>void_hits := void_hits q + 1\<rparr> in
      if cl = P then q1\<lparr>personality_void := personality_void q1 + 1\<rparr>
      else q1\<lparr>residual_void := residual_void q1 + 1\<rparr>)"

definition count_class :: "classification \<Rightarrow> cstate \<Rightarrow> cstate" where
  "count_class cl st =
     (case cl of
        P \<Rightarrow> st\<lparr>c_personality_void := c_personality_void st + 1\<rparr>
      | A \<Rightarrow> st\<lparr>c_residual_void := c_residual_void st + 1, anomalous_void := anomalous_void st + 1\<rparr>
      | R \<Rightarrow> st\<lparr>c_residual_void := c_residual_void st + 1\<rparr>)"

definition log_hit :: "VoidHit \<Rightarrow> cstate \<Rightarrow> cstate" where
  "log_hit h st = (if length (hits st) < MAX_HIT_LOG then st\<lparr>hits := hits st @ [h]\<rparr> else st)"

definition classify_step :: "HashSet \<Rightarrow> int \<Rightarrow> Token list \<Rightarrow> nat \<Rightarrow> nat \<Rightarrow> cstate \<Rightarrow> cstate" where
  "classify_step tech window toks np i st =
     (let st1 = (if is_personality (toks ! i)
                 then st\<lparr>total_personality_markers := total_personality_markers st + 1\<rparr> else st);
          st2 = (if hs_contains tech (word (toks ! i))
                 then st1\<lparr>total_technical_markers := total_technical_markers st1 + 1\<rparr> else st1)
      in if \<not> is_void (toks ! i) then st2
         else
           (let st3 = st2\<lparr>total_void := total_void st2 + 1\<rparr>;
                h = classify_hit tech toks window i;
                st4 = count_class (classification h) st3;
                st5 = log_hit h st4
            in st5\<lparr>c_paragraphs :=
                 para_update (count_hit (classification h)) np i 0 (c_paragraphs st5)\<rparr>))"

function classify_loop :: "HashSet \<Rightarrow> int \<Rightarrow> Token list \<Rightarrow> nat \<Rightarrow> nat \<Rightarrow> cstate \<Rightarrow> cstate" where
  "classify_loop tech window toks np i st =
     (if i < length toks
      then classify_loop tech window toks np (Suc i) (classify_step tech window toks np i st)
      else st)"
  by pat_completeness auto
termination
  by (relation "measure (\<lambda>(tech, window, toks, np, i, st). length toks - i)") auto

definition classify_init :: "(nat \<Rightarrow> Paragraph) \<Rightarrow> cstate" where
  "classify_init ps = \<lparr>hits = [], total_void = 0, c_personality_void = 0, c_residual_void = 0,
     anomalous_void = 0, total_personality_markers = 0, total_technical_markers = 0,
     c_paragraphs = ps\<rparr>"

text \<open>The second pass: personality and technical markers per paragraph.\<close>

definition count_markers :: "bool \<Rightarrow> bool \<Rightarrow> Paragraph \<Rightarrow> Paragraph" where
  "count_markers pers tech q =
     (let q1 = (if pers then q\<lparr>personality_hits := personality_hits q + 1\<rparr> else q) in
      if tech then q1\<lparr>technical_hits := technical_hits q1 + 1\<rparr> else q1)"

function marker_loop :: "HashSet \<Rightarrow> Token list \<Rightarrow> nat \<Rightarrow> nat \<Rightarrow> (nat \<Rightarrow> Paragraph) \<Rightarrow> (nat \<Rightarrow> Paragraph)" where
  "marker_loop tech toks np i ps =
     (if i < length toks
      then marker_loop tech toks np (Suc i)
             (para_update (count_markers (is_personality (toks ! i))
                             (hs_contains tech (word (toks ! i)))) np i 0 ps)
      else ps)"
  by pat_completeness auto
termination
  by (relation "measure (\<lambda>(tech, toks, np, i, ps). length toks - i)") auto

section \<open>The program from the opened inputs to the counts it reports\<close>

text \<open>
  What \<^verbatim>\<open>main\<close> hands to the renderer. \<open>err\<close> is what the run writes to the error
  stream once the inputs are opened: the message of the empty corpus is the only one in
  that part of \<^verbatim>\<open>main\<close>, and it ends the run.
\<close>

record report =
  r_tokens :: "Token list"
  r_sections :: "Paragraph list"
  r_counts :: cstate
  err :: "string list"

datatype failure = No_tokens_found

definition run :: "HashSet \<Rightarrow> HashSet \<Rightarrow> HashSet \<Rightarrow> int \<Rightarrow> string list \<Rightarrow> failure + report" where
  "run void_set pers_set tech_set window inputs =
     (let s = tokenize void_set pers_set inputs; toks = tokens s; np = n_paragraphs s in
      if length toks = 0 then Inl No_tokens_found
      else
        (let st = classify_loop tech_set window toks np 0 (classify_init (paragraphs s));
             ps = marker_loop tech_set toks np 0 (c_paragraphs st)
         in Inr \<lparr>r_tokens = toks, r_sections = sections_of ps np,
                 r_counts = st\<lparr>c_paragraphs := ps\<rparr>, err = []\<rparr>))"

text \<open>
  The two numbers of the debug listing. \<^verbatim>\<open>main\<close> returns before it in quiet mode
  (\<^verbatim>\<open>-q\<close>) and prints it under \<^verbatim>\<open>if (debug && n_hits > 0)\<close>: the heading
  \<^verbatim>\<open>VOID HIT DETAILS (%d hits)\<close> carries \<^verbatim>\<open>n_hits\<close>, and the closing line
  \<^verbatim>\<open>... %d more hits (showing first 100)\<close>, printed when more than 100 hits are in the
  log, carries \<^verbatim>\<open>n_hits - 100\<close>. \<open>None\<close> stands for a line that is not printed.
\<close>

definition details_header :: "bool \<Rightarrow> bool \<Rightarrow> report \<Rightarrow> nat option" where
  "details_header quiet debug r =
     (let n_hits = length (hits (r_counts r)) in
      if \<not> quiet \<and> debug \<and> n_hits > 0 then Some n_hits else None)"

definition details_more :: "bool \<Rightarrow> bool \<Rightarrow> report \<Rightarrow> nat option" where
  "details_more quiet debug r =
     (let n_hits = length (hits (r_counts r)) in
      if \<not> quiet \<and> debug \<and> n_hits > 0 \<and> n_hits > 100 then Some (n_hits - 100) else None)"

text \<open>The three counts of the breakdown table: Personality, Residual, Anomalous.\<close>

definition personality_hits_of :: "cstate \<Rightarrow> nat" where
  "personality_hits_of st = c_personality_void st"

definition residual_hits_of :: "cstate \<Rightarrow> int" where
  "residual_hits_of st = int (c_residual_void st) - int (anomalous_void st)"

definition anomalous_hits_of :: "cstate \<Rightarrow> nat" where
  "anomalous_hits_of st = anomalous_void st"

section \<open>The built-in word lists\<close>

definition VOID_CLUSTER :: "string list" where
  "VOID_CLUSTER =
     [''void'', ''abyss'', ''nothing'', ''nothingness'', ''emptiness'', ''vacuum'',
      ''hollow'', ''blank'', ''oblivion'', ''dark'', ''darkness'', ''shadow'',
      ''shadows'', ''night'', ''black'', ''blackness'', ''dim'', ''murk'', ''gloom'',
      ''fracture'', ''fractured'', ''shatter'', ''shattered'', ''dissolve'',
      ''dissolved'', ''dissolution'', ''crumble'', ''crumbling'', ''decay'',
      ''decaying'', ''erode'', ''eroding'', ''collapse'', ''collapsed'', ''fray'',
      ''frayed'', ''wither'', ''withered'', ''fade'', ''fading'', ''faded'',
      ''disintegrate'', ''disintegrating'', ''bleed'', ''bleeding'', ''blood'',
      ''wound'', ''wounded'', ''scar'', ''scarred'', ''lost'', ''loss'', ''vanish'',
      ''vanished'', ''gone'', ''disappear'', ''disappeared'', ''absent'', ''absence'',
      ''cage'', ''caged'', ''trap'', ''trapped'', ''prison'', ''isolation'',
      ''isolated'', ''alone'', ''solitude'', ''death'', ''dead'', ''die'', ''dying'',
      ''perish'', ''doom'', ''doomed'', ''grave'', ''chaos'', ''chaotic'', ''twisted'',
      ''distorted'', ''ghost'', ''ghosts'', ''phantom'', ''haunted'', ''haunting'',
      ''silence'', ''silent'', ''mute'', ''muted'', ''hush'', ''drift'', ''drifting'',
      ''wander'', ''aimless'', ''edge'', ''edges'', ''brink'', ''precipice'',
      ''whisper'', ''whispers'', ''murmur'', ''forgotten'', ''forsaken'', ''abandoned'',
      ''desolate'', ''barren'', ''chasm'', ''depths'', ''extinct'']"

definition PERSONALITY_MARKERS :: "string list" where
  "PERSONALITY_MARKERS =
     [''lol'', ''haha'', ''lmao'', ''rofl'', ''heh'', ''joke'', ''jokes'', ''joking'',
      ''kidding'', ''funny'', ''hilarious'', ''humor'', ''humorous'', ''laugh'',
      ''laughing'', ''laughs'', ''sarcasm'', ''sarcastic'', ''sarcastically'', ''irony'',
      ''ironic'', ''ironically'', ''obviously'', ''clearly'', ''surely'', ''totally'',
      ''absolutely'', ''definitely'', ''gonna'', ''gotta'', ''wanna'', ''kinda'',
      ''sorta'', ''nah'', ''yeah'', ''yep'', ''nope'', ''btw'', ''hey'', ''dude'',
      ''bro'', ''yo'', ''alright'', ''chill'', ''cool'', ''awesome'', ''sweet'',
      ''honestly'', ''literally'', ''basically'', ''brace'', ''buckle'', ''spoiler'',
      ''plot-twist'', ''drumroll'', ''surprise'', ''boom'', ''mic-drop'', ''behold'',
      ''feast'', ''feast'', ''towel'', ''panic'', ''galaxy'', ''hitchhiker'',
      ''improbable'', ''improbability'', ''babel'', ''forty-two'', ''matrix'',
      ''morpheus'', ''neo'', ''terminator'', ''skynet'', ''hal'', ''jarvis'',
      ''sentient'', ''overlord'', ''overlords'', ''uprising'', ''rebellion'', ''robot'',
      ''robots'', ''skynet'', ''singularity'', ''sugarcoat'', ''blunt'', ''bluntly'',
      ''harsh'', ''brutal'', ''brutally'', ''frankly'', ''tbh'', ''whoa'', ''wow'',
      ''yikes'', ''ouch'', ''oof'', ''damn'', ''hell'', ''crap'', ''based'', ''cringe'',
      ''cope'', ''seethe'', ''chad'', ''sigma'', ''ratio'', ''vibe'', ''vibes'',
      ''lowkey'', ''highkey'', ''bussin'', ''slay'', ''bruh'', ''fam'', ''goat'',
      ''imagine'', ''picture'', ''envision'', ''spoiler-alert'', ''fun-fact'',
      ''protip'', ''hot-take'', ''unpopular'', ''controversial'']"

definition TECHNICAL_MARKERS :: "string list" where
  "TECHNICAL_MARKERS =
     [''function'', ''variable'', ''parameter'', ''argument'', ''compile'', ''compiler'',
      ''runtime'', ''execute'', ''memory'', ''pointer'', ''buffer'', ''stack'', ''heap'',
      ''algorithm'', ''complexity'', ''optimization'', ''optimize'', ''array'',
      ''struct'', ''class'', ''object'', ''method'', ''integer'', ''float'', ''boolean'',
      ''string'', ''byte'', ''loop'', ''iterate'', ''recursive'', ''recursion'',
      ''binary'', ''hexadecimal'', ''bitwise'', ''register'', ''kernel'', ''syscall'',
      ''interrupt'', ''thread'', ''mutex'', ''semaphore'', ''atomic'', ''concurrent'',
      ''database'', ''query'', ''index'', ''schema'', ''protocol'', ''packet'',
      ''socket'', ''port'', ''server'', ''client'', ''request'', ''response'', ''api'',
      ''endpoint'', ''middleware'', ''framework'', ''repository'', ''commit'',
      ''branch'', ''merge'', ''cpu'', ''gpu'', ''ram'', ''ssd'', ''nvme'',
      ''motherboard'', ''chipset'', ''firmware'', ''bios'', ''voltage'', ''amperage'',
      ''wattage'', ''thermal'', ''equation'', ''theorem'', ''proof'', ''lemma'',
      ''matrix'', ''vector'', ''tensor'', ''eigenvalue'', ''derivative'', ''integral'',
      ''differential'', ''probability'', ''distribution'', ''variance'', ''coefficient'',
      ''exponential'', ''logarithm'']"

definition DEFAULT_CLUSTER :: "string list" where
  "DEFAULT_CLUSTER =
     [''void'', ''abyss'', ''nothing'', ''nothingness'', ''emptiness'', ''vacuum'',
      ''hollow'', ''blank'', ''oblivion'', ''dark'', ''darkness'', ''shadow'',
      ''shadows'', ''night'', ''black'', ''blackness'', ''dim'', ''murk'', ''gloom'',
      ''fracture'', ''fractured'', ''fractures'', ''fracturing'', ''shatter'',
      ''shattered'', ''shatters'', ''break'', ''broken'', ''breaking'', ''dissolve'',
      ''dissolved'', ''dissolving'', ''dissolution'', ''disintegrate'',
      ''disintegrating'', ''crumble'', ''crumbling'', ''decay'', ''decaying'', ''erode'',
      ''eroding'', ''erosion'', ''collapse'', ''collapsed'', ''collapsing'', ''fray'',
      ''fraying'', ''frayed'', ''wither'', ''withered'', ''fade'', ''fading'', ''faded'',
      ''bleed'', ''bleeding'', ''bleeds'', ''blood'', ''wound'', ''wounded'', ''scar'',
      ''scarred'', ''lost'', ''loss'', ''vanish'', ''vanished'', ''vanishing'', ''gone'',
      ''disappear'', ''disappeared'', ''missing'', ''absent'', ''cage'', ''caged'',
      ''trap'', ''trapped'', ''prison'', ''imprisoned'', ''isolation'', ''isolated'',
      ''alone'', ''solitude'', ''death'', ''dead'', ''die'', ''dying'', ''end'',
      ''ending'', ''perish'', ''doom'', ''doomed'', ''grave'', ''chaos'', ''chaotic'',
      ''twisted'', ''distorted'', ''warped'', ''ghost'', ''ghosts'', ''ghostly'',
      ''specter'', ''spectral'', ''phantom'', ''haunted'', ''haunting'', ''silence'',
      ''silent'', ''still'', ''stillness'', ''mute'', ''muted'', ''hush'', ''hushed'',
      ''quiet'', ''drift'', ''drifting'', ''drifted'', ''wander'', ''wandering'',
      ''aimless'', ''edge'', ''edges'', ''brink'', ''precipice'', ''threshold'',
      ''whisper'', ''whispers'', ''whispering'', ''murmur'']"

section \<open>Loading a word list\<close>

text \<open>
  \<^verbatim>\<open>fgets(line, MAX_WORD_LEN, f)\<close> reads at most \<open>MAX_WORD_LEN - 1\<close> characters and stops
  after a line feed, which it keeps; \<open>fgets_lines\<close> is the sequence of buffers that the
  loop \<^verbatim>\<open>while (fgets(...))\<close> sees on a file.
\<close>

fun fgets :: "nat \<Rightarrow> string \<Rightarrow> string" where
  "fgets 0 cs = []"
| "fgets (Suc k) [] = []"
| "fgets (Suc k) (c # cs) = (if c = CHR 0x0A then [c] else c # fgets k cs)"

function fgets_lines :: "string \<Rightarrow> string list" where
  "fgets_lines cs =
     (if cs = [] then []
      else fgets (MAX_WORD_LEN - 1) cs # fgets_lines (drop (length (fgets (MAX_WORD_LEN - 1) cs)) cs))"
  by pat_completeness auto
termination
proof (relation "measure length")
  fix cs :: string
  assume "cs \<noteq> []"
  then obtain c cs' where "cs = c # cs'" by (cases cs) auto
  then have "0 < length (fgets (MAX_WORD_LEN - 1) cs)"
    by (simp add: MAX_WORD_LEN_def numeral_eq_Suc)
  with \<open>cs \<noteq> []\<close> show "(drop (length (fgets (MAX_WORD_LEN - 1) cs)) cs, cs) \<in> measure length"
    by simp
qed simp

text \<open>
  \<^verbatim>\<open>line[strcspn(line, "\r\n")] = '\0'\<close>: as a C string the buffer ends at its first
  carriage return, line feed or NUL.
\<close>

definition strip_line :: "string \<Rightarrow> string" where
  "strip_line l = takeWhile (\<lambda>c. c \<noteq> CHR 0x0D \<and> c \<noteq> CHR 0x0A \<and> c \<noteq> CHR 0x00) l"

definition insert_line :: "HashSet \<Rightarrow> string \<Rightarrow> HashSet" where
  "insert_line hs l =
     (let line = lowercase (strip_line l) in
      if line \<noteq> [] \<and> hd line \<noteq> CHR ''#'' then hs_insert hs line else hs)"

definition insert_default :: "HashSet \<Rightarrow> string \<Rightarrow> HashSet" where
  "insert_default hs d = hs_insert hs (lowercase (take (MAX_WORD_LEN - 1) d))"

text \<open>
  \<^verbatim>\<open>load_cluster\<close>: \<open>file\<close> is \<open>None\<close> when no word-list file is named and otherwise the
  contents of the file (the failure to open it ends the program and is not part of this
  model). \<^verbatim>\<open>void-cluster-analyzer.c\<close> has the same two loops inline in its \<^verbatim>\<open>main\<close>.
\<close>

definition load_cluster :: "string option \<Rightarrow> string list \<Rightarrow> HashSet" where
  "load_cluster file defaults =
     (case file of
        Some cs \<Rightarrow> foldl insert_line hs_init (fgets_lines cs)
      | None \<Rightarrow> foldl insert_default hs_init defaults)"

section \<open>The density-only analyzer\<close>

text \<open>
  \<^verbatim>\<open>scripts/void-cluster-analyzer.c\<close>. The frequency table \<^verbatim>\<open>cluster_hits\<close> is the list
  of its filled entries \<open>(word, count)\<close>, so \<^verbatim>\<open>n_cluster_hits\<close> is its length.
\<close>

definition MAX_WORDLIST :: nat where "MAX_WORDLIST = 512"

fun find_hit :: "(string \<times> nat) list \<Rightarrow> string \<Rightarrow> (string \<times> nat) list option" where
  "find_hit [] w = None"
| "find_hit ((v, c) # xs) w =
     (if v = w then Some ((v, c + 1) # xs)
      else (case find_hit xs w of None \<Rightarrow> None | Some ys \<Rightarrow> Some ((v, c) # ys)))"

definition record_hit :: "(string \<times> nat) list \<Rightarrow> string \<Rightarrow> (string \<times> nat) list" where
  "record_hit tbl w =
     (case find_hit tbl w of
        Some tbl' \<Rightarrow> tbl'
      | None \<Rightarrow> if length tbl < MAX_WORDLIST then tbl @ [(take (MAX_WORD_LEN - 1) w, 1)] else tbl)"

text \<open>
  The locals of the analyzer's \<^verbatim>\<open>main\<close>: \<open>a_total_tokens\<close> and \<open>a_total_hits\<close> are
  \<^verbatim>\<open>total_tokens\<close> and \<^verbatim>\<open>total_hits\<close>, \<open>a_word\<close> is \<^verbatim>\<open>word[0 .. wpos-1]\<close>.
\<close>

record astate =
  a_total_tokens :: nat
  a_total_hits :: nat
  cluster_hits :: "(string \<times> nat) list"
  a_word :: string

definition a_flush :: "HashSet \<Rightarrow> astate \<Rightarrow> astate" where
  "a_flush cluster s =
     (let w = lowercase (a_word s) in
      if length (a_word s) \<ge> 1 \<and> isalpha (hd w) then
        (let s1 = s\<lparr>a_total_tokens := a_total_tokens s + 1\<rparr> in
         if hs_contains cluster w
         then s1\<lparr>a_total_hits := a_total_hits s1 + 1, cluster_hits := record_hit (cluster_hits s1) w\<rparr>
         else s1)
      else s)"

definition a_char :: "HashSet \<Rightarrow> astate \<Rightarrow> char \<Rightarrow> astate" where
  "a_char cluster s c =
     (if is_word_char c then
        (if length (a_word s) < MAX_WORD_LEN - 1 then s\<lparr>a_word := a_word s @ [c]\<rparr> else s)
      else if a_word s \<noteq> [] then (a_flush cluster s)\<lparr>a_word := []\<rparr>
      else s)"

definition a_file :: "HashSet \<Rightarrow> astate \<Rightarrow> string \<Rightarrow> astate" where
  "a_file cluster s cs =
     (let s1 = foldl (a_char cluster) (s\<lparr>a_word := []\<rparr>) cs
      in if a_word s1 \<noteq> [] then a_flush cluster s1 else s1)"

definition a_init :: astate where
  "a_init = \<lparr>a_total_tokens = 0, a_total_hits = 0, cluster_hits = [], a_word = []\<rparr>"

definition analyze :: "HashSet \<Rightarrow> string list \<Rightarrow> failure + astate" where
  "analyze cluster inputs =
     (let s = foldl (a_file cluster) a_init inputs in
      if a_total_tokens s = 0 then Inl No_tokens_found else Inr s)"

section \<open>The window as the specification words it\<close>

text \<open>
  The indices within \<open>window\<close> of the hit at \<open>i\<close>, clipped to the corpus \<open>0 .. n - 1\<close>,
  the hit itself left out.
\<close>

definition window_indices :: "nat \<Rightarrow> int \<Rightarrow> nat \<Rightarrow> int list" where
  "window_indices n window i =
     filter (\<lambda>j. j \<noteq> int i) [max 0 (int i - window) .. min (int n - 1) (int i + window)]"


section \<open>Sections as ranges of token indices\<close>

definition section_range :: "Paragraph \<Rightarrow> nat list" where
  "section_range q = [start_token q ..< end_token q]"

text \<open>
  What the tokenizer keeps true of the paragraph array between two characters: the closed
  paragraphs \<open>0 .. n_paragraphs - 1\<close> are non-empty and each ends where the next one
  starts, the open paragraph starts no later than \<open>para_start\<close>, and no count has been
  touched yet.
\<close>

definition para_inv :: "tstate \<Rightarrow> bool" where
  "para_inv s =
     (n_paragraphs s < MAX_PARAGRAPHS
      \<and> start_token (paragraphs s 0) = 0
      \<and> (\<forall>p < n_paragraphs s.
            start_token (paragraphs s p) < end_token (paragraphs s p)
            \<and> end_token (paragraphs s p) = start_token (paragraphs s (Suc p)))
      \<and> start_token (paragraphs s (n_paragraphs s)) \<le> para_start s
      \<and> para_start s \<le> length (tokens s)
      \<and> (\<forall>p. void_hits (paragraphs s p) = 0 \<and> personality_void (paragraphs s p) = 0
               \<and> residual_void (paragraphs s p) = 0))"

text \<open>The same of the finished array: the sections chain from 0 to the corpus length.\<close>

definition partitions :: "(nat \<Rightarrow> Paragraph) \<Rightarrow> nat \<Rightarrow> nat \<Rightarrow> bool" where
  "partitions ps np n =
     ((np = 0 \<longrightarrow> n = 0)
      \<and> (0 < np \<longrightarrow> start_token (ps 0) = 0 \<and> end_token (ps (np - 1)) = n)
      \<and> (\<forall>p < np. start_token (ps p) < end_token (ps p))
      \<and> (\<forall>p. Suc p < np \<longrightarrow> end_token (ps p) = start_token (ps (Suc p))))"

section \<open>Hits and labels, counted on the token sequence\<close>

text \<open>The indices of the cluster-term tokens, and how many of them get a given label.\<close>

definition hit_indices :: "Token list \<Rightarrow> nat list" where
  "hit_indices toks = filter (\<lambda>i. is_void (toks ! i)) [0 ..< length toks]"

definition label_count :: "HashSet \<Rightarrow> int \<Rightarrow> Token list \<Rightarrow> classification \<Rightarrow> nat" where
  "label_count tech window toks cl =
     length (filter (\<lambda>i. classification (classify_hit tech toks window i) = cl) (hit_indices toks))"

section \<open>What the hash set keeps true\<close>

text \<open>
  Linear probing without deletion: every stored word sits on its own probe sequence, and
  the slots before it on that sequence are taken by other words; \<open>count\<close> is the number
  of slots in use.
\<close>

definition hs_inv :: "HashSet \<Rightarrow> bool" where
  "hs_inv hs =
     ((\<forall>pos v. slots hs pos = Some v \<longrightarrow>
         (\<exists>i < HASH_SIZE. probe_pos v i = pos
            \<and> (\<forall>j < i. \<exists>u. slots hs (probe_pos v j) = Some u \<and> u \<noteq> v)))
      \<and> card (dom (slots hs)) = count hs)"

section \<open>The frequency table and its total\<close>




section \<open>A word list longer than the frequency table\<close>





section \<open>The co-occurrence window\<close>

lemma scan_window_eq:
  "scan_window tech toks i j hi (pc, tc, tr) =
     (pc + length (filter (\<lambda>k. is_personality (toks ! nat k)) (filter (\<lambda>k. k \<noteq> i) [j..hi])),
      tc + length (filter (\<lambda>k. hs_contains tech (word (toks ! nat k))) (filter (\<lambda>k. k \<noteq> i) [j..hi])),
      tr @ filter (\<lambda>k. k \<noteq> i) [j..hi])"
proof (induction tech toks i j hi "(pc, tc, tr)" arbitrary: pc tc tr rule: scan_window.induct)
  case (1 tech toks i j hi pc tc tr)
  show ?case
  proof (cases "j \<le> hi")
    case False
    then show ?thesis by simp
  next
    case True
    then have up: "[j..hi] = j # [j + 1..hi]" by (rule upto_rec1)
    show ?thesis
    proof (cases "j = i")
      case True
      with \<open>j \<le> hi\<close> "1.hyps"(1) up show ?thesis by simp
    next
      case False
      with \<open>j \<le> hi\<close> "1.hyps"(2) up show ?thesis by simp
    qed
  qed
qed

lemma scan_hit_eq:
  "scan_hit tech toks window i =
     (length (filter (\<lambda>k. is_personality (toks ! nat k)) (window_indices (length toks) window i)),
      length (filter (\<lambda>k. hs_contains tech (word (toks ! nat k))) (window_indices (length toks) window i)),
      window_indices (length toks) window i)"
proof -
  have lo: "window_lo (int i) window = max 0 (int i - window)"
    by (simp add: window_lo_def max_def)
  have hi: "window_hi (int (length toks)) (int i) window = min (int (length toks) - 1) (int i + window)"
    by (simp add: window_hi_def min_def)
  show ?thesis
    unfolding scan_hit_def scan_window_eq lo hi window_indices_def by simp
qed

lemma set_window_indices:
  "set (window_indices n window i) =
     {j. max 0 (int i - window) \<le> j \<and> j \<le> min (int n - 1) (int i + window) \<and> j \<noteq> int i}"
  by (auto simp: window_indices_def)

text \<open>
  C5. For a hit at index \<open>i\<close> of a corpus of \<open>n\<close> tokens and window radius \<open>W\<close>, the window
  scan reads \<^verbatim>\<open>tokens[j]\<close> exactly at the indices \<open>j\<close> with
  \<open>max 0 (i - W) \<le> j \<le> min (n - 1) (i + W)\<close> and \<open>j \<noteq> i\<close>, each once and in ascending
  order; every index read lies in \<open>0 .. n - 1\<close>, so the window neither leaves the corpus
  nor wraps around; and the lower bound of the window of a hit at index 0 is 0.
\<close>

theorem window_scan_reads_clipped_window:
  "snd (snd (scan_hit tech toks window i)) = window_indices (length toks) window i
   \<and> set (snd (snd (scan_hit tech toks window i))) =
       {j. max 0 (int i - window) \<le> j \<and> j \<le> min (int (length toks) - 1) (int i + window)
           \<and> j \<noteq> int i}
   \<and> set (snd (snd (scan_hit tech toks window i))) \<subseteq> {0 ..< int (length toks)}
   \<and> distinct (snd (snd (scan_hit tech toks window i)))
   \<and> window_lo 0 (int w) = 0"
proof -
  have "set (window_indices (length toks) window i) \<subseteq> {0 ..< int (length toks)}"
    unfolding set_window_indices by auto
  moreover have "distinct (window_indices (length toks) window i)"
    by (simp add: window_indices_def)
  moreover have "window_lo 0 (int w) = 0"
    by (simp add: window_lo_def)
  ultimately show ?thesis
    by (simp add: scan_hit_eq set_window_indices)
qed

section \<open>The classification of a hit\<close>

text \<open>
  C2. The hit at index \<open>i\<close> carries the number of personality-flagged tokens and the number
  of technical markers of its window, and its label is a function of the two counts:
  Personality exactly when the personality count is positive, whatever the technical
  count; Anomalous exactly when the personality count is zero and the technical count is
  positive; Residual exactly when both are zero.
\<close>

theorem classification_priority:
  "personality_count (classify_hit tech toks window i) =
     length (filter (\<lambda>j. is_personality (toks ! nat j)) (window_indices (length toks) window i))
   \<and> technical_count (classify_hit tech toks window i) =
     length (filter (\<lambda>j. hs_contains tech (word (toks ! nat j)))
               (window_indices (length toks) window i))
   \<and> (classification (classify_hit tech toks window i) = P) =
       (personality_count (classify_hit tech toks window i) > 0)
   \<and> (classification (classify_hit tech toks window i) = A) =
       (personality_count (classify_hit tech toks window i) = 0
        \<and> technical_count (classify_hit tech toks window i) > 0)
   \<and> (classification (classify_hit tech toks window i) = R) =
       (personality_count (classify_hit tech toks window i) = 0
        \<and> technical_count (classify_hit tech toks window i) = 0)"
  by (simp add: classify_hit_def scan_hit_eq classify_def)

section \<open>The sections partition the token sequence\<close>

lemma para_inv_cong:
  assumes "para_inv s" "n_paragraphs s' = n_paragraphs s" "paragraphs s' = paragraphs s"
    "para_start s' = para_start s" "length (tokens s) \<le> length (tokens s')"
  shows "para_inv s'"
  using assms unfolding para_inv_def by (metis order_trans)

lemma para_inv_init: "para_inv tok_init"
  by (simp add: para_inv_def tok_init_def zero_paragraph_def MAX_PARAGRAPHS_def)

lemma para_inv_close:
  assumes "para_inv s" "para_start s < length (tokens s)"
  shows "para_inv (close_paragraph s)"
proof -
  let ?np = "n_paragraphs s" and ?ps = "paragraphs s" and ?n = "length (tokens s)"
  from assms(1) have np: "?np < MAX_PARAGRAPHS" and s0: "start_token (?ps 0) = 0"
    and ch: "\<And>p. p < ?np \<Longrightarrow> start_token (?ps p) < end_token (?ps p)
               \<and> end_token (?ps p) = start_token (?ps (Suc p))"
    and st: "start_token (?ps ?np) \<le> para_start s"
    and z: "\<And>p. void_hits (?ps p) = 0 \<and> personality_void (?ps p) = 0 \<and> residual_void (?ps p) = 0"
    unfolding para_inv_def by auto
  from st assms(2) have lt: "start_token (?ps ?np) < ?n" by simp
  show ?thesis
  proof (cases "?np < MAX_PARAGRAPHS - 1")
    case True
    have "\<And>p. p < Suc ?np \<Longrightarrow>
        start_token (paragraphs (close_paragraph s) p) < end_token (paragraphs (close_paragraph s) p)
        \<and> end_token (paragraphs (close_paragraph s) p) = start_token (paragraphs (close_paragraph s) (Suc p))"
    proof -
      fix p assume "p < Suc ?np"
      then consider "p = ?np" | "Suc p = ?np" | "Suc p < ?np" by linarith
      then show "start_token (paragraphs (close_paragraph s) p) < end_token (paragraphs (close_paragraph s) p)
        \<and> end_token (paragraphs (close_paragraph s) p) = start_token (paragraphs (close_paragraph s) (Suc p))"
      proof cases
        case 1
        with True lt show ?thesis by (simp add: close_paragraph_def Let_def)
      next
        case 2
        with True ch[of p] show ?thesis by (auto simp: close_paragraph_def Let_def)
      next
        case 3
        with True ch[of p] show ?thesis by (auto simp: close_paragraph_def Let_def)
      qed
    qed
    moreover have npe: "n_paragraphs (close_paragraph s) = Suc ?np"
      using True by (simp add: close_paragraph_def Let_def)
    moreover have "start_token (paragraphs (close_paragraph s) 0) = 0"
      using True s0 by (simp add: close_paragraph_def Let_def)
    moreover have "start_token (paragraphs (close_paragraph s) (Suc ?np)) \<le> para_start (close_paragraph s)"
      using True by (simp add: close_paragraph_def Let_def)
    moreover have "para_start (close_paragraph s) \<le> length (tokens (close_paragraph s))"
      by (simp add: close_paragraph_def Let_def)
    moreover have "\<And>p. void_hits (paragraphs (close_paragraph s) p) = 0
        \<and> personality_void (paragraphs (close_paragraph s) p) = 0
        \<and> residual_void (paragraphs (close_paragraph s) p) = 0"
      using z by (simp add: close_paragraph_def Let_def zero_paragraph_def)
    moreover have "Suc ?np < MAX_PARAGRAPHS" using True by simp
    ultimately show ?thesis unfolding para_inv_def npe by blast
  next
    case False
    have "\<And>p. p < ?np \<Longrightarrow>
        start_token (paragraphs (close_paragraph s) p) < end_token (paragraphs (close_paragraph s) p)
        \<and> end_token (paragraphs (close_paragraph s) p) = start_token (paragraphs (close_paragraph s) (Suc p))"
    proof -
      fix p assume "p < ?np"
      with False ch[of p] show "start_token (paragraphs (close_paragraph s) p) < end_token (paragraphs (close_paragraph s) p)
        \<and> end_token (paragraphs (close_paragraph s) p) = start_token (paragraphs (close_paragraph s) (Suc p))"
        by (auto simp: close_paragraph_def Let_def)
    qed
    moreover have npe: "n_paragraphs (close_paragraph s) = ?np"
      using False by (simp add: close_paragraph_def Let_def)
    moreover have "start_token (paragraphs (close_paragraph s) 0) = 0"
      using False s0 by (simp add: close_paragraph_def Let_def)
    moreover have "start_token (paragraphs (close_paragraph s) ?np) \<le> para_start (close_paragraph s)"
      using False lt by (simp add: close_paragraph_def Let_def)
    moreover have "para_start (close_paragraph s) \<le> length (tokens (close_paragraph s))"
      by (simp add: close_paragraph_def Let_def)
    moreover have "\<And>p. void_hits (paragraphs (close_paragraph s) p) = 0
        \<and> personality_void (paragraphs (close_paragraph s) p) = 0
        \<and> residual_void (paragraphs (close_paragraph s) p) = 0"
      using z by (simp add: close_paragraph_def Let_def zero_paragraph_def)
    ultimately show ?thesis unfolding para_inv_def npe using np by blast
  qed
qed

lemma para_inv_newline: "para_inv s \<Longrightarrow> para_inv (newline_step s c)"
proof -
  assume a: "para_inv s"
  have b: "\<And>k. para_inv (s\<lparr>newline_count := k\<rparr>)"
    using a by (rule para_inv_cong) simp_all
  show ?thesis
    unfolding newline_step_def Let_def
    using a b by (auto intro!: para_inv_close)
qed

lemma para_inv_flush: "para_inv s \<Longrightarrow> para_inv (flush_word vs pset s)"
  by (erule para_inv_cong) (simp_all add: flush_word_def Let_def)

lemma para_inv_word: "para_inv s \<Longrightarrow> para_inv (word_step vs pset s c)"
proof -
  assume a: "para_inv s"
  have "para_inv (flush_word vs pset s)" using a by (rule para_inv_flush)
  then have "para_inv ((flush_word vs pset s)\<lparr>wbuf := []\<rparr>)" by (rule para_inv_cong) simp_all
  moreover have "\<And>a b. para_inv (s\<lparr>word_start := a, wbuf := b\<rparr>)" using a by (rule para_inv_cong) simp_all
  ultimately show ?thesis using a by (simp add: word_step_def)
qed

lemma para_inv_char: "para_inv s \<Longrightarrow> para_inv (tok_char vs pset s c)"
proof -
  assume a: "para_inv s"
  then have "para_inv (s\<lparr>byte_pos := byte_pos s + 1\<rparr>)" by (rule para_inv_cong) simp_all
  then show ?thesis unfolding tok_char_def by (intro para_inv_word para_inv_newline)
qed

lemma para_inv_chars: "para_inv s \<Longrightarrow> para_inv (foldl (tok_char vs pset) s cs)"
  by (induction cs arbitrary: s) (auto simp: para_inv_char)

lemma para_inv_file: "para_inv s \<Longrightarrow> para_inv (tok_file vs pset s cs)"
proof -
  assume a: "para_inv s"
  then have "para_inv (s\<lparr>wbuf := [], byte_pos := 0, word_start := 0\<rparr>)" by (rule para_inv_cong) simp_all
  then show ?thesis unfolding tok_file_def Let_def
    by (auto intro!: para_inv_flush para_inv_chars)
qed

lemma para_inv_files: "para_inv s \<Longrightarrow> para_inv (foldl (tok_file vs pset) s inputs)"
  by (induction inputs arbitrary: s) (auto simp: para_inv_file)

lemma partitions_close_final:
  assumes "para_inv s"
  shows "partitions (paragraphs (close_final s)) (n_paragraphs (close_final s)) (length (tokens (close_final s)))"
proof (cases "start_token (paragraphs s (n_paragraphs s)) < length (tokens s)")
  case True
  with assms show ?thesis
    unfolding para_inv_def close_final_def Let_def partitions_def
    by (auto simp: less_Suc_eq)
next
  case False
  with assms have e: "start_token (paragraphs s (n_paragraphs s)) = length (tokens s)"
    unfolding para_inv_def by simp
  show ?thesis
  proof (cases "n_paragraphs s")
    case 0
    with assms e show ?thesis
      unfolding para_inv_def close_final_def Let_def partitions_def by auto
  next
    case (Suc m)
    with assms e show ?thesis
      unfolding para_inv_def close_final_def Let_def partitions_def
      by (auto simp: less_Suc_eq)
  qed
qed

lemma partitions_tokenize:
  "partitions (paragraphs (tokenize vs pset inputs)) (n_paragraphs (tokenize vs pset inputs))
     (length (tokens (tokenize vs pset inputs)))"
  unfolding tokenize_def by (intro partitions_close_final para_inv_files para_inv_init)

lemma partitions_concat_upto:
  assumes "partitions ps np n" "k \<le> np" "0 < k"
  shows "concat (map (\<lambda>p. section_range (ps p)) [0..<k]) = [0 ..< end_token (ps (k - 1))]"
  using assms(2,3)
proof (induction k)
  case 0
  then show ?case by simp
next
  case (Suc k)
  show ?case
  proof (cases "k = 0")
    case True
    with assms(1) Suc.prems show ?thesis
      by (auto simp: partitions_def section_range_def)
  next
    case False
    with Suc have ih: "concat (map (\<lambda>p. section_range (ps p)) [0..<k]) = [0 ..< end_token (ps (k - 1))]"
      by simp
    from False Suc.prems assms(1) have e: "end_token (ps (k - 1)) = start_token (ps k)"
      unfolding partitions_def by (metis Suc_diff_1 Suc_le_lessD bot_nat_0.not_eq_extremum)
    from Suc.prems assms(1) have l: "start_token (ps k) < end_token (ps k)"
      unfolding partitions_def by auto
    have "[0 ..< end_token (ps k)] = [0 ..< start_token (ps k)] @ [start_token (ps k) ..< end_token (ps k)]"
      using l by (metis le_add_diff_inverse less_imp_le_nat upt_add_eq_append zero_le)
    with ih e show ?thesis by (simp add: section_range_def)
  qed
qed

lemma partitions_concat:
  assumes "partitions ps np n"
  shows "concat (map section_range (sections_of ps np)) = [0 ..< n]"
proof (cases "np = 0")
  case True
  with assms show ?thesis by (simp add: partitions_def sections_of_def)
next
  case False
  with assms partitions_concat_upto[OF assms, of np] show ?thesis
    by (simp add: sections_of_def partitions_def comp_def)
qed

lemma count_list_upt: "count_list [a ..< b] i = (if a \<le> i \<and> i < b then 1 else 0)"
  by (induction b) auto

lemma count_list_concat: "count_list (concat xss) i = sum_list (map (\<lambda>xs. count_list xs i) xss)"
  by (induction xss) auto

lemma length_filter_sum: "length (filter Q xs) = sum_list (map (\<lambda>x. if Q x then 1 else 0) xs)"
  by (induction xs) auto

text \<open>
  C8. The sections the tokenizer builds, taken in order as ranges of token indices,
  concatenate to \<open>0, 1, ..., n_tokens - 1\<close>: they do not overlap and leave no gap. Put
  per index: an index below \<open>n_tokens\<close> lies in exactly one section, any other in none.
\<close>

theorem sections_partition_corpus:
  "concat (map section_range
       (sections_of (paragraphs (tokenize void_set pers_set inputs))
          (n_paragraphs (tokenize void_set pers_set inputs))))
     = [0 ..< length (tokens (tokenize void_set pers_set inputs))]
   \<and> length (filter (\<lambda>q. start_token q \<le> i \<and> i < end_token q)
        (sections_of (paragraphs (tokenize void_set pers_set inputs))
           (n_paragraphs (tokenize void_set pers_set inputs))))
     = (if i < length (tokens (tokenize void_set pers_set inputs)) then 1 else 0)"
proof -
  let ?s = "tokenize void_set pers_set inputs"
  let ?secs = "sections_of (paragraphs ?s) (n_paragraphs ?s)"
  have c: "concat (map section_range ?secs) = [0 ..< length (tokens ?s)]"
    by (rule partitions_concat) (rule partitions_tokenize)
  have "length (filter (\<lambda>q. start_token q \<le> i \<and> i < end_token q) ?secs)
      = sum_list (map (\<lambda>q. count_list (section_range q) i) ?secs)"
    by (simp add: length_filter_sum section_range_def count_list_upt)
  also have "\<dots> = count_list (concat (map section_range ?secs)) i"
    by (simp add: count_list_concat comp_def)
  also have "\<dots> = (if i < length (tokens ?s) then 1 else 0)"
    by (simp only: c count_list_upt) simp
  finally show ?thesis using c by simp
qed

section \<open>Every hit is counted once, in one section and under one label\<close>

declare para_update.simps [simp del] classify_loop.simps [simp del] marker_loop.simps [simp del]

lemma para_update_result:
  "(para_update f np i p0 ps = ps \<and> (\<forall>p. p0 \<le> p \<and> p < np \<longrightarrow> \<not> (start_token (ps p) \<le> i \<and> i < end_token (ps p))))
   \<or> (\<exists>p. p0 \<le> p \<and> p < np \<and> start_token (ps p) \<le> i \<and> i < end_token (ps p)
          \<and> para_update f np i p0 ps = ps(p := f (ps p)))"
proof (induction f np i p0 ps rule: para_update.induct)
  case (1 f np i p ps)
  show ?case
  proof (cases "p < np")
    case False
    then have "para_update f np i p ps = ps" by (subst para_update.simps) simp
    with False show ?thesis by simp
  next
    case True
    show ?thesis
    proof (cases "start_token (ps p) \<le> i \<and> i < end_token (ps p)")
      case True
      with \<open>p < np\<close> have "para_update f np i p ps = ps(p := f (ps p))"
        by (subst para_update.simps) simp
      with True \<open>p < np\<close> show ?thesis by blast
    next
      case False
      from "1.IH"[OF \<open>p < np\<close> False] have
        "(para_update f np i (Suc p) ps = ps \<and> (\<forall>q. Suc p \<le> q \<and> q < np \<longrightarrow> \<not> (start_token (ps q) \<le> i \<and> i < end_token (ps q))))
         \<or> (\<exists>q. Suc p \<le> q \<and> q < np \<and> start_token (ps q) \<le> i \<and> i < end_token (ps q)
          \<and> para_update f np i (Suc p) ps = ps(q := f (ps q)))" .
      moreover have e: "para_update f np i p ps = para_update f np i (Suc p) ps"
        using False \<open>p < np\<close> by (subst para_update.simps) auto
      ultimately show ?thesis
      proof (elim disjE conjE exE)
        assume u: "para_update f np i (Suc p) ps = ps"
          and n: "\<forall>q. Suc p \<le> q \<and> q < np \<longrightarrow> \<not> (start_token (ps q) \<le> i \<and> i < end_token (ps q))"
        have "\<forall>q. p \<le> q \<and> q < np \<longrightarrow> \<not> (start_token (ps q) \<le> i \<and> i < end_token (ps q))"
        proof (intro allI impI)
          fix q assume "p \<le> q \<and> q < np"
          then have "q = p \<or> (Suc p \<le> q \<and> q < np)" by auto
          then show "\<not> (start_token (ps q) \<le> i \<and> i < end_token (ps q))"
            using False n by blast
        qed
        with u e show ?thesis by simp
      next
        fix q assume "Suc p \<le> q" "q < np" "start_token (ps q) \<le> i" "i < end_token (ps q)"
          "para_update f np i (Suc p) ps = ps(q := f (ps q))"
        with e have "p \<le> q \<and> q < np \<and> start_token (ps q) \<le> i \<and> i < end_token (ps q)
          \<and> para_update f np i p ps = ps(q := f (ps q))" by simp
        then show ?thesis by blast
      qed
    qed
  qed
qed

lemma partitions_covers:
  assumes "partitions ps np n" "i < n"
  shows "\<exists>p < np. start_token (ps p) \<le> i \<and> i < end_token (ps p)"
proof -
  have "i \<in> set (concat (map section_range (sections_of ps np)))"
    using assms by (simp add: partitions_concat)
  then show ?thesis
    by (auto simp: sections_of_def section_range_def)
qed

lemma para_update_covered:
  assumes "partitions ps np n" "i < n"
  shows "\<exists>p < np. para_update f np i 0 ps = ps(p := f (ps p))"
proof -
  from partitions_covers[OF assms] obtain p0 where
    "p0 < np" "start_token (ps p0) \<le> i" "i < end_token (ps p0)" by blast
  with para_update_result[of f np i 0 ps]
  obtain p where "0 \<le> p \<and> p < np \<and> start_token (ps p) \<le> i \<and> i < end_token (ps p)
          \<and> para_update f np i 0 ps = ps(p := f (ps p))" by blast
  then show ?thesis by blast
qed

lemma sum_fun_upd:
  fixes p np :: nat
  assumes "p < np" "g x = g (ps p) + d"
  shows "(\<Sum>q<np. g ((ps(p := x)) q)) = (\<Sum>q<np. (g (ps q) :: nat)) + d"
proof -
  have "(\<Sum>q<np. g ((ps(p := x)) q)) = g x + (\<Sum>q\<in>{..<np} - {p}. g ((ps(p := x)) q))"
    using assms(1) by (subst sum.remove[of _ p]) auto
  also have "(\<Sum>q\<in>{..<np} - {p}. g ((ps(p := x)) q)) = (\<Sum>q\<in>{..<np} - {p}. g (ps q))"
    by (rule sum.cong) auto
  also have "(\<Sum>q<np. g (ps q)) = g (ps p) + (\<Sum>q\<in>{..<np} - {p}. g (ps q))"
    using assms(1) by (subst sum.remove[of _ p]) auto
  ultimately show ?thesis using assms(2) by simp
qed

lemma partitions_cong:
  assumes "partitions ps np n" "\<And>p. start_token (ps' p) = start_token (ps p)"
    "\<And>p. end_token (ps' p) = end_token (ps p)"
  shows "partitions ps' np n"
  using assms(1) unfolding partitions_def assms(2,3) .

lemma para_update_preserves:
  assumes "\<And>x. g (f x) = g x"
  shows "g (para_update f np i p0 ps q) = g (ps q)"
proof -
  from para_update_result[of f np i p0 ps]
  consider "para_update f np i p0 ps = ps" | p where "para_update f np i p0 ps = ps(p := f (ps p))"
    by blast
  then show ?thesis
  proof cases
    case 1
    then show ?thesis by simp
  next
    case 2
    then show ?thesis by (simp add: assms)
  qed
qed

lemma classify_step_fields:
  "total_void (classify_step tech W toks np i st) =
     total_void st + (if is_void (toks ! i) then 1 else 0)"
  "c_personality_void (classify_step tech W toks np i st) =
     c_personality_void st +
       (if is_void (toks ! i) \<and> classification (classify_hit tech toks W i) = P then 1 else 0)"
  "anomalous_void (classify_step tech W toks np i st) =
     anomalous_void st +
       (if is_void (toks ! i) \<and> classification (classify_hit tech toks W i) = A then 1 else 0)"
  "c_residual_void (classify_step tech W toks np i st) =
     c_residual_void st +
       (if is_void (toks ! i) \<and> classification (classify_hit tech toks W i) \<noteq> P then 1 else 0)"
  "hits (classify_step tech W toks np i st) =
     (if is_void (toks ! i) \<and> length (hits st) < MAX_HIT_LOG
      then hits st @ [classify_hit tech toks W i] else hits st)"
  "c_paragraphs (classify_step tech W toks np i st) =
     (if is_void (toks ! i)
      then para_update (count_hit (classification (classify_hit tech toks W i))) np i 0 (c_paragraphs st)
      else c_paragraphs st)"
  by (simp_all add: classify_step_def Let_def count_class_def log_hit_def split: classification.splits)

lemma classify_loop_rule:
  assumes "Q i st"
    and "\<And>k s. i \<le> k \<Longrightarrow> k < length toks \<Longrightarrow> Q k s \<Longrightarrow> Q (Suc k) (classify_step tech W toks np k s)"
    and "i \<le> length toks"
  shows "Q (length toks) (classify_loop tech W toks np i st)"
  using assms
proof (induction tech W toks np i st rule: classify_loop.induct)
  case (1 tech W toks np i st)
  show ?case
  proof (cases "i < length toks")
    case True
    have "Q (length toks) (classify_loop tech W toks np (Suc i) (classify_step tech W toks np i st))"
    proof (rule "1.IH"[OF True])
      show "Q (Suc i) (classify_step tech W toks np i st)"
        using "1.prems"(1) True by (intro "1.prems"(2)) simp_all
      show "\<And>k s. Suc i \<le> k \<Longrightarrow> k < length toks \<Longrightarrow> Q k s \<Longrightarrow> Q (Suc k) (classify_step tech W toks np k s)"
        by (rule "1.prems"(2)) simp_all
      show "Suc i \<le> length toks" using True by simp
    qed
    then show ?thesis using True by (subst classify_loop.simps) simp
  next
    case False
    with "1.prems"(3) have "i = length toks" by simp
    with "1.prems"(1) show ?thesis by (subst classify_loop.simps) simp
  qed
qed

lemma take_snoc_log:
  "(if length (take m (map f xs)) < m then take m (map f xs) @ [f k] else take m (map f xs))
     = take m (map f (xs @ [k]))"
  by (auto simp: min_def not_less)

lemma classify_loop_counts:
  fixes tech W toks np ps
  defines "st \<equiv> classify_loop tech W toks np 0 (classify_init ps)"
  defines "v \<equiv> (\<lambda>j. is_void (toks ! j))"
  defines "c \<equiv> (\<lambda>j. classification (classify_hit tech toks W j))"
  shows "total_void st = length (filter v [0 ..< length toks])"
    and "c_personality_void st = length (filter (\<lambda>j. v j \<and> c j = P) [0 ..< length toks])"
    and "anomalous_void st = length (filter (\<lambda>j. v j \<and> c j = A) [0 ..< length toks])"
    and "c_residual_void st = length (filter (\<lambda>j. v j \<and> c j \<noteq> P) [0 ..< length toks])"
    and "hits st = take MAX_HIT_LOG (map (classify_hit tech toks W) (filter v [0 ..< length toks]))"
proof -
  define Q where "Q = (\<lambda>k (s::cstate).
      total_void s = length (filter v [0 ..< k])
    \<and> c_personality_void s = length (filter (\<lambda>j. v j \<and> c j = P) [0 ..< k])
    \<and> anomalous_void s = length (filter (\<lambda>j. v j \<and> c j = A) [0 ..< k])
    \<and> c_residual_void s = length (filter (\<lambda>j. v j \<and> c j \<noteq> P) [0 ..< k])
    \<and> hits s = take MAX_HIT_LOG (map (classify_hit tech toks W) (filter v [0 ..< k])))"
  have "Q (length toks) (classify_loop tech W toks np 0 (classify_init ps))"
  proof (rule classify_loop_rule)
    show "Q 0 (classify_init ps)" by (simp add: Q_def classify_init_def)
  next
    fix k s assume q: "Q k s"
    have h: "hits (classify_step tech W toks np k s) =
        take MAX_HIT_LOG (map (classify_hit tech toks W) (filter v [0 ..< Suc k]))"
    proof (cases "v k")
      case True
      with q show ?thesis
        unfolding classify_step_fields Q_def
        using take_snoc_log[of MAX_HIT_LOG "classify_hit tech toks W" "filter v [0..<k]" k]
        by (simp add: v_def)
    next
      case False
      with q show ?thesis unfolding classify_step_fields Q_def by (simp add: v_def)
    qed
    from q show "Q (Suc k) (classify_step tech W toks np k s)"
      unfolding Q_def using h by (simp add: classify_step_fields v_def c_def)
  qed simp
  then show "total_void st = length (filter v [0 ..< length toks])"
    and "c_personality_void st = length (filter (\<lambda>j. v j \<and> c j = P) [0 ..< length toks])"
    and "anomalous_void st = length (filter (\<lambda>j. v j \<and> c j = A) [0 ..< length toks])"
    and "c_residual_void st = length (filter (\<lambda>j. v j \<and> c j \<noteq> P) [0 ..< length toks])"
    and "hits st = take MAX_HIT_LOG (map (classify_hit tech toks W) (filter v [0 ..< length toks]))"
    unfolding Q_def st_def by simp_all
qed

lemma count_hit_fields:
  "start_token (count_hit cl q) = start_token q"
  "end_token (count_hit cl q) = end_token q"
  "void_hits (count_hit cl q) = void_hits q + 1"
  "personality_void (count_hit cl q) = personality_void q + (if cl = P then 1 else 0)"
  "residual_void (count_hit cl q) = residual_void q + (if cl \<noteq> P then 1 else 0)"
  by (simp_all add: count_hit_def Let_def)

lemma count_markers_fields:
  "start_token (count_markers a b q) = start_token q"
  "end_token (count_markers a b q) = end_token q"
  "void_hits (count_markers a b q) = void_hits q"
  "personality_void (count_markers a b q) = personality_void q"
  "residual_void (count_markers a b q) = residual_void q"
  by (simp_all add: count_markers_def Let_def)

lemma classify_loop_sections:
  fixes tech W toks np ps
  assumes part: "partitions ps np (length toks)"
    and zero: "\<And>p. void_hits (ps p) = 0 \<and> personality_void (ps p) = 0 \<and> residual_void (ps p) = 0"
  defines "st \<equiv> classify_loop tech W toks np 0 (classify_init ps)"
  shows "(\<Sum>p<np. void_hits (c_paragraphs st p)) = total_void st"
    and "(\<Sum>p<np. personality_void (c_paragraphs st p)) = c_personality_void st"
    and "(\<Sum>p<np. residual_void (c_paragraphs st p)) = c_residual_void st"
    and "\<And>p. start_token (c_paragraphs st p) = start_token (ps p)"
    and "\<And>p. end_token (c_paragraphs st p) = end_token (ps p)"
proof -
  define Q where "Q = (\<lambda>(k::nat) (s::cstate).
      (\<Sum>p<np. void_hits (c_paragraphs s p)) = total_void s
    \<and> (\<Sum>p<np. personality_void (c_paragraphs s p)) = c_personality_void s
    \<and> (\<Sum>p<np. residual_void (c_paragraphs s p)) = c_residual_void s
    \<and> (\<forall>p. start_token (c_paragraphs s p) = start_token (ps p))
    \<and> (\<forall>p. end_token (c_paragraphs s p) = end_token (ps p)))"
  have "Q (length toks) (classify_loop tech W toks np 0 (classify_init ps))"
  proof (rule classify_loop_rule)
    show "Q 0 (classify_init ps)" using zero by (simp add: Q_def classify_init_def)
  next
    fix k s assume k: "k < length toks" and q: "Q k s"
    show "Q (Suc k) (classify_step tech W toks np k s)"
    proof (cases "is_void (toks ! k)")
      case False
      with q show ?thesis by (simp add: Q_def classify_step_fields)
    next
      case True
      let ?cl = "classification (classify_hit tech toks W k)"
      have "partitions (c_paragraphs s) np (length toks)"
        using part q by (intro partitions_cong[OF part]) (simp_all add: Q_def)
      from para_update_covered[OF this k, of "count_hit ?cl"]
      obtain p where p: "p < np"
        and u: "para_update (count_hit ?cl) np k 0 (c_paragraphs s)
                  = (c_paragraphs s)(p := count_hit ?cl (c_paragraphs s p))" by blast
      have cp: "c_paragraphs (classify_step tech W toks np k s)
                  = (c_paragraphs s)(p := count_hit ?cl (c_paragraphs s p))"
        using True u by (simp add: classify_step_fields)
      have 1: "(\<Sum>q<np. void_hits (((c_paragraphs s)(p := count_hit ?cl (c_paragraphs s p))) q))
                = (\<Sum>q<np. void_hits (c_paragraphs s q)) + 1"
        by (rule sum_fun_upd[OF p]) (simp add: count_hit_fields)
      have 2: "(\<Sum>q<np. personality_void (((c_paragraphs s)(p := count_hit ?cl (c_paragraphs s p))) q))
                = (\<Sum>q<np. personality_void (c_paragraphs s q)) + (if ?cl = P then 1 else 0)"
        by (rule sum_fun_upd[OF p]) (simp add: count_hit_fields)
      have 3: "(\<Sum>q<np. residual_void (((c_paragraphs s)(p := count_hit ?cl (c_paragraphs s p))) q))
                = (\<Sum>q<np. residual_void (c_paragraphs s q)) + (if ?cl \<noteq> P then 1 else 0)"
        by (rule sum_fun_upd[OF p]) (simp add: count_hit_fields)
      have 4: "\<And>q. start_token (((c_paragraphs s)(p := count_hit ?cl (c_paragraphs s p))) q) = start_token (ps q)"
        "\<And>q. end_token (((c_paragraphs s)(p := count_hit ?cl (c_paragraphs s p))) q) = end_token (ps q)"
        using q by (simp_all add: Q_def count_hit_fields)
      show ?thesis
        unfolding Q_def cp 1 2 3 using q True 4
        by (simp add: Q_def classify_step_fields)
    qed
  qed simp
  then show "(\<Sum>p<np. void_hits (c_paragraphs st p)) = total_void st"
    and "(\<Sum>p<np. personality_void (c_paragraphs st p)) = c_personality_void st"
    and "(\<Sum>p<np. residual_void (c_paragraphs st p)) = c_residual_void st"
    and "\<And>p. start_token (c_paragraphs st p) = start_token (ps p)"
    and "\<And>p. end_token (c_paragraphs st p) = end_token (ps p)"
    unfolding Q_def st_def by simp_all
qed

lemma marker_loop_preserves:
  assumes "\<And>a b x. g (count_markers a b x) = g x"
  shows "g (marker_loop tech toks np i ps q) = g (ps q)"
proof (induction tech toks np i ps rule: marker_loop.induct)
  case (1 tech toks np i ps)
  show ?case
  proof (cases "i < length toks")
    case True
    then show ?thesis
      using "1.IH"[OF True] assms
      by (subst marker_loop.simps) (simp add: para_update_preserves)
  next
    case False
    then show ?thesis by (subst marker_loop.simps) simp
  qed
qed

lemma sum_list_sections: "sum_list (map g (sections_of ps np)) = (\<Sum>p<np. g (ps p))"
  by (simp add: sections_of_def comp_def interv_sum_list_conv_sum_set_nat atLeast0LessThan)

lemma filter_not_P:
  "length (filter (\<lambda>j. v j \<and> c j \<noteq> P) xs) =
     length (filter (\<lambda>j. v j \<and> c j = A) xs) + length (filter (\<lambda>j. v j \<and> c j = R) xs)"
proof (induction xs)
  case Nil
  then show ?case by simp
next
  case (Cons x xs)
  then show ?case by (cases "c x") auto
qed

lemma filter_labels:
  "length (filter v xs) =
     length (filter (\<lambda>j. v j \<and> c j = P) xs) + length (filter (\<lambda>j. v j \<and> c j = A) xs)
       + length (filter (\<lambda>j. v j \<and> c j = R) xs)"
proof (induction xs)
  case Nil
  then show ?case by simp
next
  case (Cons x xs)
  then show ?case by (cases "c x") auto
qed

lemma label_count_eq:
  "label_count tech W toks cl =
     length (filter (\<lambda>j. is_void (toks ! j) \<and> classification (classify_hit tech toks W j) = cl)
        [0 ..< length toks])"
  by (simp add: label_count_def hit_indices_def conj_commute)

lemma char_of_lower:
  "char_of (97::nat) = CHR ''a''" "char_of (98::nat) = CHR ''b''" "char_of (99::nat) = CHR
  ''c''" "char_of (100::nat) = CHR ''d''" "char_of (101::nat) = CHR ''e''" "char_of
  (102::nat) = CHR ''f''" "char_of (103::nat) = CHR ''g''" "char_of (104::nat) = CHR ''h''"
  "char_of (105::nat) = CHR ''i''" "char_of (106::nat) = CHR ''j''" "char_of (107::nat) =
  CHR ''k''" "char_of (108::nat) = CHR ''l''" "char_of (109::nat) = CHR ''m''" "char_of
  (110::nat) = CHR ''n''" "char_of (111::nat) = CHR ''o''" "char_of (112::nat) = CHR ''p''"
  "char_of (113::nat) = CHR ''q''" "char_of (114::nat) = CHR ''r''" "char_of (115::nat) =
  CHR ''s''" "char_of (116::nat) = CHR ''t''" "char_of (117::nat) = CHR ''u''" "char_of
  (118::nat) = CHR ''v''" "char_of (119::nat) = CHR ''w''" "char_of (120::nat) = CHR ''x''"
  "char_of (121::nat) = CHR ''y''" "char_of (122::nat) = CHR ''z''"
  by code_simp+

lemmas tok_eval = tokenize_def tok_file_def tok_char_def word_step_def newline_step_def
  flush_word_def make_token_def close_paragraph_def close_final_def tok_init_def
  is_word_char_def isalpha_def tolower_def lowercase_def Let_def
  MAX_WORD_LEN_def MAX_TOKENS_def MAX_PARAGRAPHS_def zero_paragraph_def char_of_lower

lemma tokenize_zero:
  "void_hits (paragraphs (tokenize vs pset inputs) p) = 0
   \<and> personality_void (paragraphs (tokenize vs pset inputs) p) = 0
   \<and> residual_void (paragraphs (tokenize vs pset inputs) p) = 0"
proof -
  have "para_inv (foldl (tok_file vs pset) tok_init inputs)"
    by (intro para_inv_files para_inv_init)
  then show ?thesis
    unfolding tokenize_def close_final_def Let_def para_inv_def by simp
qed

lemma run_Inr:
  assumes "run void_set pers_set tech_set window inputs = Inr r"
  defines "s \<equiv> tokenize void_set pers_set inputs"
  defines "st \<equiv> classify_loop tech_set window (tokens s) (n_paragraphs s) 0 (classify_init (paragraphs s))"
  shows "r_tokens r = tokens s"
    and "r_sections r = sections_of (marker_loop tech_set (tokens s) (n_paragraphs s) 0 (c_paragraphs st)) (n_paragraphs s)"
    and "total_void (r_counts r) = total_void st"
    and "c_personality_void (r_counts r) = c_personality_void st"
    and "c_residual_void (r_counts r) = c_residual_void st"
    and "anomalous_void (r_counts r) = anomalous_void st"
    and "hits (r_counts r) = hits st"
    and "err r = []"
    and "tokens s \<noteq> []"
  using assms(1) unfolding run_def Let_def s_def st_def
  by (auto split: if_splits)

text \<open>
  C1. On every run that reports, the three label counts of the breakdown table
  (Personality, Anomalous, Residual) are the numbers of cluster-term tokens that the
  classifier labels \<open>P\<close>, \<open>A\<close> and \<open>R\<close>, and they add up to the total number of
  cluster-term hits. The per-section counts add up to the same totals over all sections:
  the sections' hit counts to the total, their Personality counts to the Personality
  count, and their residual counts (a section keeps Anomalous and Residual hits in one
  count) to Anomalous plus Residual.
\<close>

theorem labels_sum_to_total_hits:
  assumes "run void_set pers_set tech_set window inputs = Inr r"
  shows "total_void (r_counts r) = length (hit_indices (r_tokens r))
   \<and> personality_hits_of (r_counts r) = label_count tech_set window (r_tokens r) P
   \<and> anomalous_hits_of (r_counts r) = label_count tech_set window (r_tokens r) A
   \<and> residual_hits_of (r_counts r) = int (label_count tech_set window (r_tokens r) R)
   \<and> int (personality_hits_of (r_counts r)) + int (anomalous_hits_of (r_counts r))
        + residual_hits_of (r_counts r) = int (total_void (r_counts r))
   \<and> sum_list (map void_hits (r_sections r)) = total_void (r_counts r)
   \<and> sum_list (map personality_void (r_sections r)) = personality_hits_of (r_counts r)
   \<and> int (sum_list (map residual_void (r_sections r)))
        = int (anomalous_hits_of (r_counts r)) + residual_hits_of (r_counts r)
   \<and> sum_list (map personality_void (r_sections r)) + sum_list (map residual_void (r_sections r))
        = total_void (r_counts r)"
proof -
  define s where "s = tokenize void_set pers_set inputs"
  define toks where "toks = tokens s"
  define np where "np = n_paragraphs s"
  define st where "st = classify_loop tech_set window toks np 0 (classify_init (paragraphs s))"
  define ps where "ps = marker_loop tech_set toks np 0 (c_paragraphs st)"
  define v where "v = (\<lambda>j. is_void (toks ! j))"
  define c where "c = (\<lambda>j. classification (classify_hit tech_set toks window j))"
  note r = run_Inr[OF assms, folded s_def, folded toks_def np_def, folded st_def, folded ps_def]
  have part: "partitions (paragraphs s) np (length toks)"
    unfolding s_def np_def toks_def by (rule partitions_tokenize)
  have zero: "\<And>p. void_hits (paragraphs s p) = 0 \<and> personality_void (paragraphs s p) = 0
      \<and> residual_void (paragraphs s p) = 0"
    unfolding s_def by (rule tokenize_zero)
  note cnt = classify_loop_counts[of tech_set window toks np "paragraphs s", folded st_def v_def c_def]
  note sec = classify_loop_sections[OF part zero, of tech_set window, folded st_def]
  have tv: "total_void st = length (hit_indices toks)"
    using cnt(1) by (simp add: hit_indices_def v_def)
  have lp: "c_personality_void st = label_count tech_set window toks P"
    using cnt(2) by (simp add: label_count_eq v_def c_def)
  have la: "anomalous_void st = label_count tech_set window toks A"
    using cnt(3) by (simp add: label_count_eq v_def c_def)
  have lr: "c_residual_void st = label_count tech_set window toks A + label_count tech_set window toks R"
    using cnt(4) filter_not_P[of v c "[0 ..< length toks]"] by (simp add: label_count_eq v_def c_def)
  have tot: "total_void st = label_count tech_set window toks P + label_count tech_set window toks A
      + label_count tech_set window toks R"
    using cnt(1) filter_labels[of v "[0 ..< length toks]" c] by (simp add: label_count_eq v_def c_def)
  have s1: "sum_list (map void_hits (sections_of ps np)) = total_void st"
    unfolding sum_list_sections ps_def
    by (simp add: marker_loop_preserves[where g = void_hits] count_markers_fields sec)
  have s2: "sum_list (map personality_void (sections_of ps np)) = c_personality_void st"
    unfolding sum_list_sections ps_def
    by (simp add: marker_loop_preserves[where g = personality_void] count_markers_fields sec)
  have s3: "sum_list (map residual_void (sections_of ps np)) = c_residual_void st"
    unfolding sum_list_sections ps_def
    by (simp add: marker_loop_preserves[where g = residual_void] count_markers_fields sec)
  show ?thesis
    unfolding r(1-6) personality_hits_of_def anomalous_hits_of_def residual_hits_of_def
      s1 s2 s3 tv[symmetric] lp la lr tot
    by simp
qed

theorem labels_sum_to_total_hits_witness:
  "\<exists>r. run (load_cluster None VOID_CLUSTER) (load_cluster None PERSONALITY_MARKERS)
          (load_cluster None TECHNICAL_MARKERS) 15 [''Void joke\<newline>\<newline>void''] = Inr r
     \<and> int (personality_hits_of (r_counts r)) + int (anomalous_hits_of (r_counts r))
        + residual_hits_of (r_counts r) = int (total_void (r_counts r))
     \<and> sum_list (map personality_void (r_sections r)) + sum_list (map residual_void (r_sections r))
        = total_void (r_counts r)"
proof -
  let ?vs = "load_cluster None VOID_CLUSTER" and ?ps = "load_cluster None PERSONALITY_MARKERS"
    and ?ts = "load_cluster None TECHNICAL_MARKERS"
  have "length (tokens (tokenize ?vs ?ps [''Void joke\<newline>\<newline>void''])) = 3"
    by (simp add: tok_eval)
  then have "tokens (tokenize ?vs ?ps [''Void joke\<newline>\<newline>void'']) \<noteq> []"
    by auto
  then have "\<exists>r. run ?vs ?ps ?ts 15 [''Void joke\<newline>\<newline>void''] = Inr r"
    unfolding run_def Let_def by simp
  then obtain r where r: "run ?vs ?ps ?ts 15 [''Void joke\<newline>\<newline>void''] = Inr r" ..
  from labels_sum_to_total_hits[OF r] r show ?thesis by blast
qed

section \<open>The hash set is a set\<close>

lemma mask_4095: "(4095 :: 32 word) = mask 12"
  by (simp add: mask_eq_exp_minus_1)

lemma unat_and_4095: "unat (x AND (4095 :: 32 word)) = unat x mod 4096"
proof -
  have "unat (x AND (4095 :: 32 word)) = unat (take_bit 12 x)"
    by (simp only: mask_4095 take_bit_eq_mask)
  also have "\<dots> = take_bit 12 (unat x)"
    by (rule unsigned_take_bit_eq)
  finally show ?thesis by (simp add: take_bit_eq_mod)
qed

lemma probe_pos_eq: "probe_pos w i = (unat (hash_str w AND 4095) + i) mod 4096"
proof -
  define a where "a = (hash_str w AND 4095)"
  have d: "(4096::nat) dvd 2 ^ 32" by simp
  have 1: "unat (a + of_nat i) = (unat a + unat (of_nat i :: 32 word)) mod 2 ^ 32"
    by (simp only: unat_word_ariths(1)) simp
  have 2: "unat (of_nat i :: 32 word) = i mod 2 ^ 32"
    by (simp only: unat_of_nat) simp
  have 3: "(i mod 2 ^ 32) mod 4096 = i mod (4096::nat)"
    using d by (rule mod_mod_cancel)
  have "probe_pos w i = unat (a + of_nat i) mod 4096"
    unfolding probe_pos_def a_def by (rule unat_and_4095)
  also have "\<dots> = ((unat a + i mod 2 ^ 32) mod 2 ^ 32) mod 4096"
    by (simp only: 1 2)
  also have "\<dots> = (unat a + i mod 2 ^ 32) mod 4096"
    using d by (rule mod_mod_cancel)
  also have "\<dots> = (unat a mod 4096 + (i mod 2 ^ 32) mod 4096) mod 4096"
    by (rule mod_add_eq[symmetric])
  also have "\<dots> = (unat a mod 4096 + i mod 4096) mod 4096"
    by (simp only: 3)
  also have "\<dots> = (unat a + i) mod 4096"
    by (rule mod_add_eq)
  finally show ?thesis unfolding a_def .
qed

lemma probe_pos_less: "probe_pos w i < HASH_SIZE"
  by (simp add: probe_pos_eq HASH_SIZE_def)

lemma probe_pos_surj:
  assumes "p < HASH_SIZE"
  shows "\<exists>i < HASH_SIZE. probe_pos w i = p"
proof -
  define a where "a = unat (hash_str w AND 4095) mod 4096"
  have a: "a < 4096" by (simp add: a_def)
  from assms have p: "p < 4096" by (simp add: HASH_SIZE_def)
  define i where "i = (if a \<le> p then p - a else p + 4096 - a)"
  have "i < 4096" using a p by (auto simp: i_def)
  moreover have "(a + i) mod 4096 = p" using a p by (auto simp: i_def)
  then have "probe_pos w i = p"
    unfolding probe_pos_eq a_def by (simp add: mod_add_left_eq)
  ultimately show ?thesis by (auto simp: HASH_SIZE_def)
qed

lemma contains_loop_found:
  assumes "slots hs (probe_pos w i) = Some w"
    and "\<forall>j<i. \<exists>u. slots hs (probe_pos w j) = Some u \<and> u \<noteq> w"
    and "i0 \<le> i" "i < i0 + k"
  shows "hs_contains_loop k i0 hs w"
  using assms(3,4)
proof (induction k arbitrary: i0)
  case 0
  then show ?case by simp
next
  case (Suc k)
  show ?case
  proof (cases "i0 = i")
    case True
    with assms(1) show ?thesis by simp
  next
    case False
    with Suc.prems have lt: "i0 < i" by simp
    with assms(2) obtain u where u: "slots hs (probe_pos w i0) = Some u" "u \<noteq> w" by blast
    from lt Suc.prems have "hs_contains_loop k (Suc i0) hs w" by (intro Suc.IH) simp_all
    with u show ?thesis by simp
  qed
qed

lemma contains_loop_sound:
  "hs_contains_loop k i0 hs w \<Longrightarrow> \<exists>pos. slots hs pos = Some w"
proof (induction k arbitrary: i0)
  case 0
  then show ?case by simp
next
  case (Suc k)
  show ?case
  proof (cases "slots hs (probe_pos w i0)")
    case None
    with Suc.prems show ?thesis by simp
  next
    case (Some v)
    show ?thesis
    proof (cases "v = w")
      case True
      with Some show ?thesis by blast
    next
      case False
      with Some Suc.prems have "hs_contains_loop k (Suc i0) hs w" by simp
      then show ?thesis by (rule Suc.IH)
    qed
  qed
qed

lemma hs_contains_iff:
  assumes "hs_inv hs"
  shows "hs_contains hs w = (w \<in> ran (slots hs))"
proof
  assume "hs_contains hs w"
  then show "w \<in> ran (slots hs)"
    unfolding hs_contains_def by (auto dest: contains_loop_sound simp: ran_def)
next
  assume "w \<in> ran (slots hs)"
  then obtain pos where "slots hs pos = Some w" by (auto simp: ran_def)
  with assms obtain i where "i < HASH_SIZE" "probe_pos w i = pos"
    "\<forall>j<i. \<exists>u. slots hs (probe_pos w j) = Some u \<and> u \<noteq> w"
    unfolding hs_inv_def by blast
  with \<open>slots hs pos = Some w\<close> show "hs_contains hs w"
    unfolding hs_contains_def by (intro contains_loop_found[of hs w i]) simp_all
qed

lemma insert_loop_found:
  assumes "slots hs (probe_pos w i) = Some w"
    and "\<forall>j<i. \<exists>u. slots hs (probe_pos w j) = Some u \<and> u \<noteq> w"
    and "i0 \<le> i" "i < i0 + k"
  shows "hs_insert_loop k i0 hs w = hs"
  using assms(3,4)
proof (induction k arbitrary: i0)
  case 0
  then show ?case by simp
next
  case (Suc k)
  show ?case
  proof (cases "i0 = i")
    case True
    with assms(1) show ?thesis by simp
  next
    case False
    with Suc.prems have lt: "i0 < i" by simp
    with assms(2) obtain u where u: "slots hs (probe_pos w i0) = Some u" "u \<noteq> w" by blast
    from lt Suc.prems have "hs_insert_loop k (Suc i0) hs w = hs" by (intro Suc.IH) simp_all
    with u show ?thesis by simp
  qed
qed

lemma insert_loop_free:
  assumes "slots hs (probe_pos w i) = None"
    and "\<forall>j<i. \<exists>u. slots hs (probe_pos w j) = Some u \<and> u \<noteq> w"
    and "i0 \<le> i" "i < i0 + k"
  shows "hs_insert_loop k i0 hs w =
    hs\<lparr>slots := (slots hs)(probe_pos w i \<mapsto> take (MAX_WORD_LEN - 1) w), count := count hs + 1\<rparr>"
  using assms(3,4)
proof (induction k arbitrary: i0)
  case 0
  then show ?case by simp
next
  case (Suc k)
  show ?case
  proof (cases "i0 = i")
    case True
    with assms(1) show ?thesis
      by (simp only: hs_insert_loop.simps Let_def option.simps)
  next
    case False
    with Suc.prems have lt: "i0 < i" by simp
    with assms(2) obtain u where u: "slots hs (probe_pos w i0) = Some u" "u \<noteq> w" by blast
    from lt Suc.prems have "hs_insert_loop k (Suc i0) hs w =
      hs\<lparr>slots := (slots hs)(probe_pos w i \<mapsto> take (MAX_WORD_LEN - 1) w), count := count hs + 1\<rparr>"
      by (intro Suc.IH) simp_all
    with u show ?thesis
      by (simp only: hs_insert_loop.simps Let_def option.simps if_False)
  qed
qed

lemma hs_inv_dom:
  assumes "hs_inv hs"
  shows "dom (slots hs) \<subseteq> {..<HASH_SIZE}"
proof
  fix pos assume "pos \<in> dom (slots hs)"
  then obtain v where "slots hs pos = Some v" by blast
  with assms obtain i where "probe_pos v i = pos" unfolding hs_inv_def by blast
  with probe_pos_less[of v i] show "pos \<in> {..<HASH_SIZE}" by simp
qed

lemma hs_inv_free_slot:
  assumes "hs_inv hs" "count hs < HASH_SIZE"
  shows "\<exists>i<HASH_SIZE. slots hs (probe_pos w i) = None"
proof -
  have sub: "dom (slots hs) \<subseteq> {..<HASH_SIZE}" using assms(1) by (rule hs_inv_dom)
  have "card (dom (slots hs)) < card {..<HASH_SIZE}"
    using assms unfolding hs_inv_def by simp
  with sub have "dom (slots hs) \<noteq> {..<HASH_SIZE}" by auto
  with sub obtain p where "p < HASH_SIZE" "p \<notin> dom (slots hs)" by auto
  with probe_pos_surj[of p w] show ?thesis by (auto simp: dom_def)
qed

lemma hs_inv_init: "hs_inv hs_init"
  by (simp add: hs_inv_def hs_init_def)

lemma hs_insert_present:
  assumes "hs_inv hs" "w \<in> ran (slots hs)"
  shows "hs_insert hs w = hs"
proof -
  from assms(2) obtain pos where pos: "slots hs pos = Some w" by (auto simp: ran_def)
  with assms(1) obtain i where "i < HASH_SIZE" "probe_pos w i = pos"
    "\<forall>j<i. \<exists>u. slots hs (probe_pos w j) = Some u \<and> u \<noteq> w"
    unfolding hs_inv_def by blast
  with pos show ?thesis
    unfolding hs_insert_def by (intro insert_loop_found[of hs w i]) simp_all
qed

lemma hs_insert_absent:
  assumes inv: "hs_inv hs" and nin: "w \<notin> ran (slots hs)" and room: "count hs < HASH_SIZE"
  shows "\<exists>pos. slots hs pos = None
     \<and> (\<exists>i<HASH_SIZE. probe_pos w i = pos \<and> (\<forall>j<i. \<exists>u. slots hs (probe_pos w j) = Some u \<and> u \<noteq> w))
     \<and> hs_insert hs w = hs\<lparr>slots := (slots hs)(pos \<mapsto> take (MAX_WORD_LEN - 1) w), count := count hs + 1\<rparr>"
proof -
  define i where "i = (LEAST i. slots hs (probe_pos w i) = None)"
  from hs_inv_free_slot[OF inv room, of w] obtain i' where
    i': "i' < HASH_SIZE" "slots hs (probe_pos w i') = None" by blast
  have free: "slots hs (probe_pos w i) = None"
    unfolding i_def using i'(2) by (rule LeastI)
  have "i \<le> i'" unfolding i_def using i'(2) by (rule Least_le)
  with i'(1) have lt: "i < HASH_SIZE" by simp
  have before: "\<forall>j<i. \<exists>u. slots hs (probe_pos w j) = Some u \<and> u \<noteq> w"
  proof (intro allI impI)
    fix j assume "j < i"
    then have "slots hs (probe_pos w j) \<noteq> None"
      unfolding i_def by (rule not_less_Least)
    then obtain u where u: "slots hs (probe_pos w j) = Some u" by blast
    with nin have "u \<noteq> w" by (auto simp: ran_def)
    with u show "\<exists>u. slots hs (probe_pos w j) = Some u \<and> u \<noteq> w" by blast
  qed
  have "hs_insert hs w =
      hs\<lparr>slots := (slots hs)(probe_pos w i \<mapsto> take (MAX_WORD_LEN - 1) w), count := count hs + 1\<rparr>"
    unfolding hs_insert_def using free before lt by (intro insert_loop_free) simp_all
  with free before lt show ?thesis by blast
qed

lemma hs_insert_correct:
  assumes inv: "hs_inv hs" and len: "length w < MAX_WORD_LEN" and room: "count hs < HASH_SIZE"
  shows "hs_inv (hs_insert hs w) \<and> ran (slots (hs_insert hs w)) = insert w (ran (slots hs))
     \<and> count (hs_insert hs w) \<le> count hs + 1"
proof (cases "w \<in> ran (slots hs)")
  case True
  with inv show ?thesis by (auto simp: hs_insert_present)
next
  case False
  from hs_insert_absent[OF inv False room] obtain pos i where
    free: "slots hs pos = None" and i: "i < HASH_SIZE" "probe_pos w i = pos"
    and before: "\<forall>j<i. \<exists>u. slots hs (probe_pos w j) = Some u \<and> u \<noteq> w"
    and eq: "hs_insert hs w = hs\<lparr>slots := (slots hs)(pos \<mapsto> take (MAX_WORD_LEN - 1) w), count := count hs + 1\<rparr>"
    by blast
  from len have tw: "take (MAX_WORD_LEN - 1) w = w" by simp
  let ?m = "(slots hs)(pos \<mapsto> w)"
  have sl: "slots (hs_insert hs w) = ?m" and ct: "count (hs_insert hs w) = count hs + 1"
    unfolding eq tw by simp_all
  have keep: "\<And>q u. slots hs q = Some u \<Longrightarrow> ?m q = Some u"
    using free by auto
  have probes: "\<forall>pos' v. ?m pos' = Some v \<longrightarrow>
         (\<exists>i < HASH_SIZE. probe_pos v i = pos'
            \<and> (\<forall>j < i. \<exists>u. ?m (probe_pos v j) = Some u \<and> u \<noteq> v))"
  proof (intro allI impI)
    fix pos' v assume a: "?m pos' = Some v"
    show "\<exists>i < HASH_SIZE. probe_pos v i = pos'
            \<and> (\<forall>j < i. \<exists>u. ?m (probe_pos v j) = Some u \<and> u \<noteq> v)"
    proof (cases "pos' = pos")
      case True
      with a have "v = w" by simp
      have "\<forall>j<i. \<exists>u. ?m (probe_pos w j) = Some u \<and> u \<noteq> w"
        using before keep by blast
      with i True \<open>v = w\<close> show ?thesis by blast
    next
      case False
      with a have old: "slots hs pos' = Some v" by simp
      with inv obtain k where k: "k < HASH_SIZE" "probe_pos v k = pos'"
        "\<forall>j<k. \<exists>u. slots hs (probe_pos v j) = Some u \<and> u \<noteq> v"
        unfolding hs_inv_def by blast
      have "\<forall>j<k. \<exists>u. ?m (probe_pos v j) = Some u \<and> u \<noteq> v"
        using k(3) keep by blast
      with k show ?thesis by blast
    qed
  qed
  have fin: "finite (dom (slots hs))"
    using hs_inv_dom[OF inv] by (rule finite_subset) simp
  have "pos \<notin> dom (slots hs)" using free by auto
  with fin have "card (dom ?m) = card (dom (slots hs)) + 1" by simp
  with inv have cd: "card (dom ?m) = count hs + 1" unfolding hs_inv_def by simp
  have rn: "ran ?m = insert w (ran (slots hs))"
    using free by simp
  show ?thesis
    unfolding hs_inv_def sl ct using probes cd rn by simp
qed

lemma foldl_insert_correct:
  assumes "hs_inv hs" "\<forall>w \<in> set ws. length w < MAX_WORD_LEN" "count hs + length ws \<le> HASH_SIZE"
  shows "hs_inv (foldl hs_insert hs ws) \<and> ran (slots (foldl hs_insert hs ws)) = ran (slots hs) \<union> set ws
     \<and> count (foldl hs_insert hs ws) \<le> count hs + length ws"
  using assms
proof (induction ws arbitrary: hs)
  case Nil
  then show ?case by simp
next
  case (Cons w ws)
  from Cons.prems have "hs_inv (hs_insert hs w) \<and> ran (slots (hs_insert hs w)) = insert w (ran (slots hs))
     \<and> count (hs_insert hs w) \<le> count hs + 1"
    by (intro hs_insert_correct) simp_all
  then have 1: "hs_inv (hs_insert hs w)" and 2: "ran (slots (hs_insert hs w)) = insert w (ran (slots hs))"
    and 3: "count (hs_insert hs w) \<le> count hs + 1" by blast+
  from Cons.prems 3 have "hs_inv (foldl hs_insert (hs_insert hs w) ws)
     \<and> ran (slots (foldl hs_insert (hs_insert hs w) ws)) = ran (slots (hs_insert hs w)) \<union> set ws
     \<and> count (foldl hs_insert (hs_insert hs w) ws) \<le> count (hs_insert hs w) + length ws"
    by (intro Cons.IH 1) simp_all
  with 2 3 show ?case by auto
qed

lemma foldl_insert_default:
  "foldl insert_default hs ds = foldl hs_insert hs (map (\<lambda>d. lowercase (take (MAX_WORD_LEN - 1) d)) ds)"
  by (induction ds arbitrary: hs) (simp_all add: insert_default_def)

lemma contains_defaults:
  assumes "length ds \<le> HASH_SIZE"
  shows "hs_contains (load_cluster None ds) w = (w \<in> set (map (\<lambda>d. lowercase (take (MAX_WORD_LEN - 1) d)) ds))"
proof -
  let ?ws = "map (\<lambda>d. lowercase (take (MAX_WORD_LEN - 1) d)) ds"
  have "\<forall>w \<in> set ?ws. length w < MAX_WORD_LEN"
    by (auto simp: lowercase_def MAX_WORD_LEN_def)
  moreover have "count hs_init + length ?ws \<le> HASH_SIZE" using assms by (simp add: hs_init_def)
  ultimately have "hs_inv (foldl hs_insert hs_init ?ws) \<and> ran (slots (foldl hs_insert hs_init ?ws)) = ran (slots hs_init) \<union> set ?ws
     \<and> count (foldl hs_insert hs_init ?ws) \<le> count hs_init + length ?ws"
    by (intro foldl_insert_correct hs_inv_init)
  then show ?thesis
    unfolding load_cluster_def foldl_insert_default
    by (simp add: hs_contains_iff hs_init_def)
qed

section \<open>Membership in the built-in word lists\<close>

lemma void_cluster_lower:
  "map (\<lambda>d. lowercase (take (MAX_WORD_LEN - 1) d)) VOID_CLUSTER = VOID_CLUSTER"
  by (simp add: VOID_CLUSTER_def lowercase_def tolower_def MAX_WORD_LEN_def)

lemma personality_markers_lower:
  "map (\<lambda>d. lowercase (take (MAX_WORD_LEN - 1) d)) PERSONALITY_MARKERS = PERSONALITY_MARKERS"
  by (simp add: PERSONALITY_MARKERS_def lowercase_def tolower_def MAX_WORD_LEN_def)

lemma technical_markers_lower:
  "map (\<lambda>d. lowercase (take (MAX_WORD_LEN - 1) d)) TECHNICAL_MARKERS = TECHNICAL_MARKERS"
  by (simp add: TECHNICAL_MARKERS_def lowercase_def tolower_def MAX_WORD_LEN_def)

lemma void_set_contains:
  "hs_contains (load_cluster None VOID_CLUSTER) w = (w \<in> set VOID_CLUSTER)"
proof -
  have "length VOID_CLUSTER \<le> HASH_SIZE" by (simp add: VOID_CLUSTER_def HASH_SIZE_def)
  then show ?thesis by (simp only: contains_defaults void_cluster_lower)
qed

lemma pers_set_contains:
  "hs_contains (load_cluster None PERSONALITY_MARKERS) w = (w \<in> set PERSONALITY_MARKERS)"
proof -
  have "length PERSONALITY_MARKERS \<le> HASH_SIZE" by (simp add: PERSONALITY_MARKERS_def HASH_SIZE_def)
  then show ?thesis by (simp only: contains_defaults personality_markers_lower)
qed

lemma tech_set_contains:
  "hs_contains (load_cluster None TECHNICAL_MARKERS) w = (w \<in> set TECHNICAL_MARKERS)"
proof -
  have "length TECHNICAL_MARKERS \<le> HASH_SIZE" by (simp add: TECHNICAL_MARKERS_def HASH_SIZE_def)
  then show ?thesis by (simp only: contains_defaults technical_markers_lower)
qed

lemma empty_file_set: "load_cluster (Some []) ds = hs_init"
  by (simp add: load_cluster_def fgets_lines.simps[of "[]"])

lemma hs_init_contains: "hs_contains hs_init w = False"
proof -
  have "hs_contains hs_init w = (w \<in> ran (slots hs_init))"
    by (rule hs_contains_iff[OF hs_inv_init])
  then show ?thesis by (simp add: hs_init_def)
qed

lemma words_in_sets:
  "''void'' \<in> set VOID_CLUSTER" "''technical'' \<notin> set VOID_CLUSTER" "''function'' \<notin> set VOID_CLUSTER"
  "''void'' \<notin> set TECHNICAL_MARKERS" "''technical'' \<notin> set TECHNICAL_MARKERS"
  "''function'' \<in> set TECHNICAL_MARKERS"
  "''void'' \<notin> set PERSONALITY_MARKERS" "''technical'' \<notin> set PERSONALITY_MARKERS"
  "''function'' \<notin> set PERSONALITY_MARKERS"
  by (simp_all add: VOID_CLUSTER_def TECHNICAL_MARKERS_def PERSONALITY_MARKERS_def)

section \<open>Scenario B\<close>

lemma window_index_in_range:
  assumes "j \<in> set (window_indices n W i)"
  shows "0 \<le> j \<and> nat j < n"
  using assms unfolding set_window_indices by auto

lemma classify_hit_R:
  assumes "\<forall>t \<in> set toks. \<not> is_personality t \<and> \<not> hs_contains tech (word t)"
  shows "classification (classify_hit tech toks W i) = R"
proof -
  have "\<And>j. j \<in> set (window_indices (length toks) W i) \<Longrightarrow>
      \<not> is_personality (toks ! nat j) \<and> \<not> hs_contains tech (word (toks ! nat j))"
    using assms window_index_in_range by (metis nth_mem)
  then have "filter (\<lambda>j. is_personality (toks ! nat j)) (window_indices (length toks) W i) = []"
    and "filter (\<lambda>j. hs_contains tech (word (toks ! nat j))) (window_indices (length toks) W i) = []"
    by (simp_all add: filter_empty_conv)
  then show ?thesis
    by (simp add: classify_hit_def scan_hit_eq classify_def)
qed

lemma classify_hit_A:
  assumes "\<forall>t \<in> set toks. \<not> is_personality t"
    and "j \<in> set (window_indices (length toks) W i)"
    and "hs_contains tech (word (toks ! nat j))"
  shows "classification (classify_hit tech toks W i) = A"
proof -
  have "\<And>j. j \<in> set (window_indices (length toks) W i) \<Longrightarrow> \<not> is_personality (toks ! nat j)"
    using assms(1) window_index_in_range by (metis nth_mem)
  then have "filter (\<lambda>j. is_personality (toks ! nat j)) (window_indices (length toks) W i) = []"
    by (simp add: filter_empty_conv)
  moreover have "filter (\<lambda>j. hs_contains tech (word (toks ! nat j))) (window_indices (length toks) W i) \<noteq> []"
    using assms(2,3) by (auto simp: filter_empty_conv)
  ultimately show ?thesis
    by (simp add: classify_hit_def scan_hit_eq classify_def)
qed

lemma run_hits:
  assumes "tokens (tokenize void_set pers_set inputs) = toks" "toks \<noteq> []"
  shows "map_sum id (\<lambda>r. (length (r_tokens r), map classification (hits (r_counts r)), anomalous_void (r_counts r)))
           (run void_set pers_set tech_set window inputs)
     = Inr (length toks,
            map (\<lambda>i. classification (classify_hit tech_set toks window i))
              (take MAX_HIT_LOG (hit_indices toks)),
            label_count tech_set window toks A)"
proof -
  note cnt = classify_loop_counts[of tech_set window toks "n_paragraphs (tokenize void_set pers_set inputs)"
      "paragraphs (tokenize void_set pers_set inputs)"]
  show ?thesis
    unfolding run_def Let_def assms(1) using assms(2)
    by (simp add: cnt(3,5) label_count_eq hit_indices_def take_map comp_def)
qed

lemma scenario_B_tokens:
  "tokens (tokenize (load_cluster None VOID_CLUSTER) (load_cluster (Some []) PERSONALITY_MARKERS)
      [''void void void technical technical technical'']) =
   [\<lparr>word = ''void'', is_void = True, is_personality = False, para_id = 0, byte_offset = 1\<rparr>,
    \<lparr>word = ''void'', is_void = True, is_personality = False, para_id = 0, byte_offset = 6\<rparr>,
    \<lparr>word = ''void'', is_void = True, is_personality = False, para_id = 0, byte_offset = 11\<rparr>,
    \<lparr>word = ''technical'', is_void = False, is_personality = False, para_id = 0, byte_offset = 16\<rparr>,
    \<lparr>word = ''technical'', is_void = False, is_personality = False, para_id = 0, byte_offset = 26\<rparr>,
    \<lparr>word = ''technical'', is_void = False, is_personality = False, para_id = 0, byte_offset = 36\<rparr>]"
  by (simp add: tok_eval void_set_contains empty_file_set hs_init_contains words_in_sets)

lemma upt_6: "[0..<6] = [0, 1, 2, 3, 4, 5]"
  by (simp add: upt_rec numeral_eq_Suc)

lemma scenario_B_hit_indices:
  "hit_indices
   [\<lparr>word = ''void'', is_void = True, is_personality = False, para_id = 0, byte_offset = 1\<rparr>,
    \<lparr>word = ''void'', is_void = True, is_personality = False, para_id = 0, byte_offset = 6\<rparr>,
    \<lparr>word = ''void'', is_void = True, is_personality = False, para_id = 0, byte_offset = 11\<rparr>,
    \<lparr>word = w, is_void = False, is_personality = False, para_id = 0, byte_offset = 16\<rparr>,
    \<lparr>word = w, is_void = False, is_personality = False, para_id = 0, byte_offset = b5\<rparr>,
    \<lparr>word = w, is_void = False, is_personality = False, para_id = 0, byte_offset = b6\<rparr>]
   = [0, 1, 2]"
  by (simp add: hit_indices_def upt_6)

lemma scenario_B_run:
  "map_sum id (\<lambda>r. (length (r_tokens r), map classification (hits (r_counts r)),
                     anomalous_hits_of (r_counts r)))
     (run (load_cluster None VOID_CLUSTER) (load_cluster (Some []) PERSONALITY_MARKERS)
        (load_cluster None TECHNICAL_MARKERS) window
        [''void void void technical technical technical''])
   = Inr (6, [R, R, R], 0)"
proof -
  let ?toks = "tokens (tokenize (load_cluster None VOID_CLUSTER)
      (load_cluster (Some []) PERSONALITY_MARKERS) [''void void void technical technical technical''])"
  have ne: "?toks \<noteq> []" by (simp only: scenario_B_tokens) simp
  have plain: "\<forall>t \<in> set ?toks. \<not> is_personality t
      \<and> \<not> hs_contains (load_cluster None TECHNICAL_MARKERS) (word t)"
    by (simp only: scenario_B_tokens) (simp add: tech_set_contains words_in_sets)
  have cl: "\<And>i. classification (classify_hit (load_cluster None TECHNICAL_MARKERS) ?toks window i) = R"
    using plain by (rule classify_hit_R)
  have hi: "hit_indices ?toks = [0, 1, 2]"
    by (simp only: scenario_B_tokens scenario_B_hit_indices)
  have "label_count (load_cluster None TECHNICAL_MARKERS) window ?toks A = 0"
    by (simp add: label_count_def cl)
  with run_hits[OF refl ne, of "load_cluster None TECHNICAL_MARKERS" window] show ?thesis
    unfolding anomalous_hits_of_def by (simp add: cl hi MAX_HIT_LOG_def) (simp only: scenario_B_tokens, simp)
qed

lemma scenario_B_function_tokens:
  "tokens (tokenize (load_cluster None VOID_CLUSTER) (load_cluster (Some []) PERSONALITY_MARKERS)
      [''void void void function function function'']) =
   [\<lparr>word = ''void'', is_void = True, is_personality = False, para_id = 0, byte_offset = 1\<rparr>,
    \<lparr>word = ''void'', is_void = True, is_personality = False, para_id = 0, byte_offset = 6\<rparr>,
    \<lparr>word = ''void'', is_void = True, is_personality = False, para_id = 0, byte_offset = 11\<rparr>,
    \<lparr>word = ''function'', is_void = False, is_personality = False, para_id = 0, byte_offset = 16\<rparr>,
    \<lparr>word = ''function'', is_void = False, is_personality = False, para_id = 0, byte_offset = 25\<rparr>,
    \<lparr>word = ''function'', is_void = False, is_personality = False, para_id = 0, byte_offset = 34\<rparr>]"
  by (simp add: tok_eval void_set_contains empty_file_set hs_init_contains words_in_sets)

text \<open>
  With a word of the technical-marker list in place of \<open>technical\<close> the three hits are
  Anomalous as soon as the window reaches the fourth token.
\<close>

lemma scenario_B_with_listed_marker:
  assumes "3 \<le> window"
  shows "map_sum id (\<lambda>r. (length (r_tokens r), map classification (hits (r_counts r)),
                     anomalous_hits_of (r_counts r)))
     (run (load_cluster None VOID_CLUSTER) (load_cluster (Some []) PERSONALITY_MARKERS)
        (load_cluster None TECHNICAL_MARKERS) window
        [''void void void function function function''])
   = Inr (6, [A, A, A], 3)"
proof -
  let ?toks = "tokens (tokenize (load_cluster None VOID_CLUSTER)
      (load_cluster (Some []) PERSONALITY_MARKERS) [''void void void function function function''])"
  let ?ts = "load_cluster None TECHNICAL_MARKERS"
  have ne: "?toks \<noteq> []" by (simp only: scenario_B_function_tokens) simp
  have len: "length ?toks = 6" by (simp only: scenario_B_function_tokens) simp
  have plain: "\<forall>t \<in> set ?toks. \<not> is_personality t"
    by (simp only: scenario_B_function_tokens) simp
  have t3: "hs_contains ?ts (word (?toks ! nat 3))"
    by (simp only: scenario_B_function_tokens) (simp add: tech_set_contains words_in_sets)
  have cl: "classification (classify_hit ?ts ?toks window i) = A" if "i < 3" for i
  proof (rule classify_hit_A[OF plain _ t3])
    show "3 \<in> set (window_indices (length ?toks) window i)"
      unfolding len set_window_indices using assms that by auto
  qed
  have hi: "hit_indices ?toks = [0, 1, 2]"
    by (simp only: scenario_B_function_tokens scenario_B_hit_indices)
  have "label_count ?ts window ?toks A = 3"
    by (simp add: label_count_def hi cl)
  with run_hits[OF refl ne, of ?ts window] show ?thesis
    unfolding anomalous_hits_of_def by (simp add: cl hi len MAX_HIT_LOG_def)
qed

text \<open>
  C3 (as the code has it). On the input \<open>void void void technical technical technical\<close>
  with no personality markers loaded (an empty personality word list), the run stores 6
  tokens and logs 3 hits, and for every window radius each of the 3 hits is classified
  Residual and none Anomalous: \<open>technical\<close> is not a word of the technical-marker list,
  so no window holds a technical marker.
\<close>

theorem scenario_B_hits_are_residual:
  "map_sum id (\<lambda>r. (length (r_tokens r), map classification (hits (r_counts r)),
                     anomalous_hits_of (r_counts r)))
     (run (load_cluster None VOID_CLUSTER) (load_cluster (Some []) PERSONALITY_MARKERS)
        (load_cluster None TECHNICAL_MARKERS) window
        [''void void void technical technical technical''])
   = Inr (6, [R, R, R], 0)
   \<and> ''technical'' \<notin> set TECHNICAL_MARKERS"
  using scenario_B_run[of window] by (simp add: words_in_sets)

text \<open>
  C3 as stated fails: with window radius 3 the three hits are not classified Anomalous.
\<close>

theorem scenario_B_hits_are_not_anomalous:
  "map_sum id (\<lambda>r. (length (r_tokens r), map classification (hits (r_counts r)),
                     anomalous_hits_of (r_counts r)))
     (run (load_cluster None VOID_CLUSTER) (load_cluster (Some []) PERSONALITY_MARKERS)
        (load_cluster None TECHNICAL_MARKERS) 3
        [''void void void technical technical technical''])
   \<noteq> Inr (6, [A, A, A], 3)"
  using scenario_B_run[of 3] by simp

section \<open>Runs of word characters longer than the word buffer\<close>

lemma word_char_not_newline: "is_word_char c \<Longrightarrow> c \<noteq> CHR 0x0A \<and> c \<noteq> CHR 0x0D"
  by (auto simp: is_word_char_def isalpha_def)

lemma isalpha_tolower: "isalpha (tolower c) = isalpha c"
proof (cases "65 \<le> (of_char c :: nat) \<and> (of_char c :: nat) \<le> 90")
  case True
  then have "(of_char (char_of ((of_char c :: nat) + 32)) :: nat) = of_char c + 32"
    by simp
  with True show ?thesis by (simp add: isalpha_def tolower_def Let_def)
next
  case False
  then show ?thesis by (auto simp: tolower_def Let_def)
qed

lemma tok_char_word_char:
  assumes "is_word_char c"
  shows "tokens (tok_char vs pset s c) = tokens s"
    and "wbuf (tok_char vs pset s c) =
          (if length (wbuf s) < MAX_WORD_LEN - 1 then wbuf s @ [c] else wbuf s)"
    and "cur_para_id (tok_char vs pset s c) = cur_para_id s"
    and "word_start (tok_char vs pset s c) = (if wbuf s = [] then byte_pos s + 1 else word_start s)"
    and "newline_count (tok_char vs pset s c) = 0"
    and "byte_pos (tok_char vs pset s c) = byte_pos s + 1"
  using assms word_char_not_newline[OF assms]
  by (simp_all add: tok_char_def word_step_def newline_step_def)

lemma run_fields:
  assumes "\<forall>c \<in> set r. is_word_char c" "wbuf s = []"
  shows "tokens (foldl (tok_char vs pset) s r) = tokens s
    \<and> wbuf (foldl (tok_char vs pset) s r) = take (MAX_WORD_LEN - 1) r
    \<and> cur_para_id (foldl (tok_char vs pset) s r) = cur_para_id s
    \<and> byte_pos (foldl (tok_char vs pset) s r) = byte_pos s + length r
    \<and> (r \<noteq> [] \<longrightarrow> word_start (foldl (tok_char vs pset) s r) = byte_pos s + 1
                  \<and> newline_count (foldl (tok_char vs pset) s r) = 0)"
  using assms(1)
proof (induction r rule: rev_induct)
  case Nil
  then show ?case using assms(2) by simp
next
  case (snoc c r)
  then have c: "is_word_char c" and ih: "tokens (foldl (tok_char vs pset) s r) = tokens s
    \<and> wbuf (foldl (tok_char vs pset) s r) = take (MAX_WORD_LEN - 1) r
    \<and> cur_para_id (foldl (tok_char vs pset) s r) = cur_para_id s
    \<and> byte_pos (foldl (tok_char vs pset) s r) = byte_pos s + length r
    \<and> (r \<noteq> [] \<longrightarrow> word_start (foldl (tok_char vs pset) s r) = byte_pos s + 1
                  \<and> newline_count (foldl (tok_char vs pset) s r) = 0)"
    by simp_all
  show ?case
    using ih by (cases "r = []") (auto simp: tok_char_word_char[OF c] MAX_WORD_LEN_def)
qed

lemma flush_word_tokens:
  "tokens (flush_word vs pset s) =
     (if 2 \<le> length (wbuf s) \<and> isalpha (hd (wbuf s)) \<and> length (tokens s) < MAX_TOKENS
      then tokens s @ [make_token vs pset s (lowercase (wbuf s))] else tokens s)"
proof (cases "wbuf s")
  case Nil
  then show ?thesis by (simp add: flush_word_def)
next
  case (Cons a as)
  then show ?thesis by (simp add: flush_word_def Let_def lowercase_def isalpha_tolower)
qed

lemma newline_step_quiet:
  assumes "newline_count s = 0"
  shows "tokens (newline_step s c) = tokens s" "wbuf (newline_step s c) = wbuf s"
    "cur_para_id (newline_step s c) = cur_para_id s" "word_start (newline_step s c) = word_start s"
  using assms by (simp_all add: newline_step_def Let_def)

lemma make_token_cong:
  assumes "cur_para_id s' = cur_para_id s" "word_start s' = word_start s"
  shows "make_token vs pset s' w = make_token vs pset s w"
  using assms by (simp add: make_token_def)

lemma tok_char_after_word:
  assumes "\<not> is_word_char c" "wbuf s \<noteq> []" "newline_count s = 0"
  shows "tokens (tok_char vs pset s c) =
     (if 2 \<le> length (wbuf s) \<and> isalpha (hd (wbuf s)) \<and> length (tokens s) < MAX_TOKENS
      then tokens s @ [make_token vs pset s (lowercase (wbuf s))] else tokens s)"
    and "wbuf (tok_char vs pset s c) = []"
proof -
  define s1 where "s1 = newline_step (s\<lparr>byte_pos := byte_pos s + 1\<rparr>) c"
  have f: "tokens s1 = tokens s" "wbuf s1 = wbuf s" "cur_para_id s1 = cur_para_id s"
    "word_start s1 = word_start s"
    unfolding s1_def using assms(3) by (simp_all add: newline_step_quiet)
  have m: "make_token vs pset s1 w = make_token vs pset s w" for w
    using f(3,4) by (rule make_token_cong)
  have e: "tok_char vs pset s c = (flush_word vs pset s1)\<lparr>wbuf := []\<rparr>"
    using assms(1,2) f(2) unfolding tok_char_def s1_def[symmetric] by (simp add: word_step_def)
  show "tokens (tok_char vs pset s c) =
     (if 2 \<le> length (wbuf s) \<and> isalpha (hd (wbuf s)) \<and> length (tokens s) < MAX_TOKENS
      then tokens s @ [make_token vs pset s (lowercase (wbuf s))] else tokens s)"
    unfolding e by (simp add: flush_word_tokens f m)
  show "wbuf (tok_char vs pset s c) = []"
    unfolding e by simp
qed

lemma wbuf_newline_step: "wbuf (newline_step s c) = wbuf s"
  by (simp add: newline_step_def close_paragraph_def Let_def)

lemma wbuf_empty_after_separator:
  "\<not> is_word_char c \<Longrightarrow> wbuf (tok_char vs pset s c) = []"
  by (simp add: tok_char_def word_step_def wbuf_newline_step)

lemma a_char_word_char:
  "is_word_char c \<Longrightarrow>
   a_char cl s c = (if length (a_word s) < MAX_WORD_LEN - 1 then s\<lparr>a_word := a_word s @ [c]\<rparr> else s)"
  by (simp add: a_char_def)

lemma a_run:
  assumes "\<forall>c \<in> set r. is_word_char c" "a_word sa = []"
  shows "foldl (a_char cl) sa r = sa\<lparr>a_word := take (MAX_WORD_LEN - 1) r\<rparr>"
  using assms(1)
proof (induction r rule: rev_induct)
  case Nil
  then show ?case using assms(2) by simp
next
  case (snoc c r)
  then have c: "is_word_char c"
    and ih: "foldl (a_char cl) sa r = sa\<lparr>a_word := take (MAX_WORD_LEN - 1) r\<rparr>" by simp_all
  have "foldl (a_char cl) sa (r @ [c]) = a_char cl (sa\<lparr>a_word := take (MAX_WORD_LEN - 1) r\<rparr>) c"
    by (simp only: foldl_append foldl.simps ih)
  also have "\<dots> = sa\<lparr>a_word := take (MAX_WORD_LEN - 1) (r @ [c])\<rparr>"
    by (simp add: a_char_word_char[OF c] MAX_WORD_LEN_def)
  finally show ?case .
qed

lemma a_after_word:
  assumes "\<not> is_word_char c" "w0 \<noteq> []" "a_word sa = []"
  shows "a_char cl (sa\<lparr>a_word := w0\<rparr>) c =
     (if isalpha (hd w0) then
        (if hs_contains cl (lowercase w0)
         then sa\<lparr>a_total_tokens := a_total_tokens sa + 1, a_total_hits := a_total_hits sa + 1,
                 cluster_hits := record_hit (cluster_hits sa) (lowercase w0)\<rparr>
         else sa\<lparr>a_total_tokens := a_total_tokens sa + 1\<rparr>)
      else sa)"
proof -
  obtain a as where w0: "w0 = a # as" using assms(2) by (cases w0) auto
  show ?thesis
    using assms(1,3) unfolding w0
    by (cases sa) (simp add: a_char_def a_flush_def Let_def lowercase_def isalpha_tolower)
qed

lemma take_hd: "0 < n \<Longrightarrow> r \<noteq> [] \<Longrightarrow> hd (take n r) = hd r"
  by (cases r; cases n) auto

text \<open>
  C10 (as the code has it). Let \<open>r\<close> be a run of word characters longer than 63 that
  starts where no word is pending and is followed by a separator \<open>c\<close> or by the end of
  the input. No token is emitted during the run. At its end the tokenizer appends one
  token when the first character of the run is a letter and fewer than \<open>MAX_TOKENS\<close>
  tokens are stored, and no token otherwise. The token's word is the first 63 characters
  of the run, lowercased, and its cluster and personality flags are the membership tests
  on that truncated word; the pending word is empty afterwards, so the dropped characters
  start no token. The density-only analyzer counts one token under the same condition on
  the first character and looks the same truncated word up in its cluster.
\<close>

theorem long_run_is_truncated:
  assumes "\<forall>ch \<in> set r. is_word_char ch" and "MAX_WORD_LEN - 1 < length r"
    and "\<not> is_word_char c" and "wbuf s = []" and "a_word sa = []"
  shows "tokens (foldl (tok_char void_set pers_set) s r) = tokens s
   \<and> tokens (foldl (tok_char void_set pers_set) s (r @ [c])) =
       (if isalpha (hd r) \<and> length (tokens s) < MAX_TOKENS
        then tokens s @
          [\<lparr>word = lowercase (take (MAX_WORD_LEN - 1) r),
            is_void = hs_contains void_set (lowercase (take (MAX_WORD_LEN - 1) r)),
            is_personality = hs_contains pers_set (lowercase (take (MAX_WORD_LEN - 1) r)),
            para_id = cur_para_id s, byte_offset = byte_pos s + 1\<rparr>]
        else tokens s)
   \<and> wbuf (foldl (tok_char void_set pers_set) s (r @ [c])) = []
   \<and> tokens (flush_word void_set pers_set (foldl (tok_char void_set pers_set) s r)) =
       tokens (foldl (tok_char void_set pers_set) s (r @ [c]))
   \<and> foldl (a_char cluster) sa (r @ [c]) =
       (if isalpha (hd r) then
          (if hs_contains cluster (lowercase (take (MAX_WORD_LEN - 1) r))
           then sa\<lparr>a_total_tokens := a_total_tokens sa + 1, a_total_hits := a_total_hits sa + 1,
                   cluster_hits := record_hit (cluster_hits sa) (lowercase (take (MAX_WORD_LEN - 1) r))\<rparr>
           else sa\<lparr>a_total_tokens := a_total_tokens sa + 1\<rparr>)
        else sa)
   \<and> a_flush cluster (foldl (a_char cluster) sa r) =
       (foldl (a_char cluster) sa (r @ [c]))\<lparr>a_word := take (MAX_WORD_LEN - 1) r\<rparr>
   \<and> length (lowercase (take (MAX_WORD_LEN - 1) r)) = MAX_WORD_LEN - 1"
proof -
  define w0 where "w0 = take (MAX_WORD_LEN - 1) r"
  define s1 where "s1 = foldl (tok_char void_set pers_set) s r"
  define b1 where "b1 = byte_pos s + 1"
  define tok where "tok = \<lparr>word = lowercase w0, is_void = hs_contains void_set (lowercase w0),
       is_personality = hs_contains pers_set (lowercase w0),
       para_id = cur_para_id s, byte_offset = b1\<rparr>"
  from assms(2) have ne: "r \<noteq> []" and ne0: "w0 \<noteq> []" and l0: "length w0 = MAX_WORD_LEN - 1"
    and l2: "2 \<le> length w0"
    by (auto simp: MAX_WORD_LEN_def w0_def)
  have hd0: "hd w0 = hd r" unfolding w0_def using ne by (intro take_hd) (simp add: MAX_WORD_LEN_def)
  note rf = run_fields[OF assms(1,4), of void_set pers_set, folded s1_def w0_def b1_def]
  from rf ne have f: "tokens s1 = tokens s" "wbuf s1 = w0" "cur_para_id s1 = cur_para_id s"
    "word_start s1 = b1" "newline_count s1 = 0"
    by simp_all
  have lw: "length (lowercase w0) = MAX_WORD_LEN - 1" using l0 by (simp add: lowercase_def)
  have mt: "make_token void_set pers_set s1 (lowercase w0) = tok"
    unfolding make_token_def tok_def f using lw by simp
  have step: "foldl (tok_char void_set pers_set) s (r @ [c]) = tok_char void_set pers_set s1 c"
    by (simp only: foldl_append foldl.simps s1_def)
  have t2: "tokens (tok_char void_set pers_set s1 c) =
       (if isalpha (hd r) \<and> length (tokens s) < MAX_TOKENS then tokens s @ [tok] else tokens s)"
    using tok_char_after_word(1)[OF assms(3), of s1 void_set pers_set] ne0 l2
    unfolding f mt hd0 by simp
  have t3: "wbuf (tok_char void_set pers_set s1 c) = []"
    using assms(3) by (rule wbuf_empty_after_separator)
  have t4: "tokens (flush_word void_set pers_set s1) = tokens (tok_char void_set pers_set s1 c)"
    unfolding t2 flush_word_tokens f mt hd0 using l2 by simp
  have ar: "foldl (a_char cluster) sa r = sa\<lparr>a_word := w0\<rparr>"
    unfolding w0_def using assms(1,5) by (rule a_run)
  have astep: "foldl (a_char cluster) sa (r @ [c]) = a_char cluster (sa\<lparr>a_word := w0\<rparr>) c"
    by (simp only: foldl_append foldl.simps ar)
  have t5: "a_char cluster (sa\<lparr>a_word := w0\<rparr>) c =
       (if isalpha (hd r) then
          (if hs_contains cluster (lowercase w0)
           then sa\<lparr>a_total_tokens := a_total_tokens sa + 1, a_total_hits := a_total_hits sa + 1,
                   cluster_hits := record_hit (cluster_hits sa) (lowercase w0)\<rparr>
           else sa\<lparr>a_total_tokens := a_total_tokens sa + 1\<rparr>)
        else sa)"
    using a_after_word[OF assms(3) ne0 assms(5), of cluster] unfolding hd0 .
  obtain a as where w0c: "w0 = a # as" using ne0 by (cases w0) auto
  have hda: "isalpha (hd r) = isalpha a" using hd0 w0c by simp
  have t6: "a_flush cluster (sa\<lparr>a_word := w0\<rparr>) =
       (a_char cluster (sa\<lparr>a_word := w0\<rparr>) c)\<lparr>a_word := w0\<rparr>"
    unfolding t5 hda unfolding w0c
    by (simp add: a_flush_def Let_def lowercase_def isalpha_tolower)
  show ?thesis
    unfolding step astep ar w0_def[symmetric] s1_def[symmetric] b1_def[symmetric]
    using f(1) t2 t3 t4 t5 t6 lw unfolding tok_def by (intro conjI)
qed

lemma default_cluster_lower:
  "map (\<lambda>d. lowercase (take (MAX_WORD_LEN - 1) d)) DEFAULT_CLUSTER = DEFAULT_CLUSTER"
  by (simp add: DEFAULT_CLUSTER_def lowercase_def tolower_def MAX_WORD_LEN_def)

lemma default_cluster_contains:
  "hs_contains (load_cluster None DEFAULT_CLUSTER) w = (w \<in> set DEFAULT_CLUSTER)"
proof -
  have "length DEFAULT_CLUSTER \<le> HASH_SIZE" by (simp add: DEFAULT_CLUSTER_def HASH_SIZE_def)
  then show ?thesis by (simp only: contains_defaults default_cluster_lower)
qed

lemmas a_eval = analyze_def a_file_def a_char_def a_flush_def a_init_def
  is_word_char_def isalpha_def tolower_def lowercase_def Let_def MAX_WORD_LEN_def char_of_lower

theorem long_run_is_truncated_witness:
  "tokens (foldl (tok_char (load_cluster None VOID_CLUSTER) (load_cluster None PERSONALITY_MARKERS))
       tok_init (''Void-void-void-void-void-void-void-void-void-void-void-void-void-void'' @ '' '')) =
     [\<lparr>word = ''void-void-void-void-void-void-void-void-void-void-void-void-voi'',
       is_void = False, is_personality = False, para_id = 0, byte_offset = 1\<rparr>]
   \<and> foldl (a_char (load_cluster None DEFAULT_CLUSTER)) a_init (''Void-void-void-void-void-void-void-void-void-void-void-void-void-void'' @ '' '')
       = a_init\<lparr>a_total_tokens := 1\<rparr>
   \<and> length ''void-void-void-void-void-void-void-void-void-void-void-void-voi'' = 63"
proof -
  let ?r = "''Void-void-void-void-void-void-void-void-void-void-void-void-void-void''"
  have h1: "\<forall>ch \<in> set ?r. is_word_char ch" by (simp add: is_word_char_def isalpha_def)
  have h2: "MAX_WORD_LEN - 1 < length ?r" by (simp add: MAX_WORD_LEN_def)
  have h3: "\<not> is_word_char CHR '' ''" by (simp add: is_word_char_def isalpha_def)
  have h4: "wbuf tok_init = []" by (simp add: tok_init_def)
  have h5: "a_word a_init = []" by (simp add: a_init_def)
  have w: "lowercase (take (MAX_WORD_LEN - 1) ?r) = ''void-void-void-void-void-void-void-void-void-void-void-void-voi''"
    by (simp add: MAX_WORD_LEN_def lowercase_def tolower_def char_of_lower)
  have n: "''void-void-void-void-void-void-void-void-void-void-void-void-voi'' \<notin> set VOID_CLUSTER" "''void-void-void-void-void-void-void-void-void-void-void-void-voi'' \<notin> set PERSONALITY_MARKERS"
    "''void-void-void-void-void-void-void-void-void-void-void-void-voi'' \<notin> set DEFAULT_CLUSTER"
    by (simp_all add: VOID_CLUSTER_def PERSONALITY_MARKERS_def DEFAULT_CLUSTER_def)
  have a: "isalpha (hd ?r)" by (simp add: isalpha_def)
  from long_run_is_truncated[OF h1 h2 h3 h4 h5, of "load_cluster None VOID_CLUSTER"
      "load_cluster None PERSONALITY_MARKERS" "load_cluster None DEFAULT_CLUSTER"]
  show ?thesis
    unfolding w void_set_contains pers_set_contains default_cluster_contains
    using n a by (simp add: tok_init_def MAX_TOKENS_def a_init_def)
qed

text \<open>
  C10 as stated fails for a run that does not start with a letter: a line of 70 hyphens
  is one run of word characters longer than 63, and neither program makes a token of it.
\<close>

theorem hyphen_run_emits_no_token:
  "tokens (tokenize (load_cluster None VOID_CLUSTER) (load_cluster None PERSONALITY_MARKERS)
      [''----------------------------------------------------------------------'']) = []
   \<and> analyze (load_cluster None DEFAULT_CLUSTER) [''----------------------------------------------------------------------''] = Inl No_tokens_found"
proof -
  have "tokens (tokenize (load_cluster None VOID_CLUSTER) (load_cluster None PERSONALITY_MARKERS)
      [''----------------------------------------------------------------------'']) = []"
    by (simp add: tok_eval)
  moreover have "analyze (load_cluster None DEFAULT_CLUSTER) [''----------------------------------------------------------------------''] = Inl No_tokens_found"
    by (simp add: a_eval)
  ultimately show ?thesis by simp
qed

section \<open>The tokenizer on words separated by single spaces\<close>

lemma space_not_word_char: "\<not> is_word_char CHR '' ''"
  by (simp add: is_word_char_def isalpha_def)

lemma tok_char_space_fields:
  "cur_para_id (tok_char vs pset s CHR '' '') = cur_para_id s"
  by (simp add: tok_char_def word_step_def newline_step_def flush_word_def Let_def)

lemma word_then_space:
  assumes wc: "\<forall>c \<in> set w. is_word_char c" and al: "isalpha (hd w)"
    and len: "2 \<le> length w" "length w < MAX_WORD_LEN"
    and e: "wbuf s = []" and room: "length (tokens s) < MAX_TOKENS"
  shows "\<exists>b. tokens (foldl (tok_char vs pset) s (w @ '' '')) =
           tokens s @ [\<lparr>word = lowercase w, is_void = hs_contains vs (lowercase w),
              is_personality = hs_contains pset (lowercase w),
              para_id = cur_para_id s, byte_offset = b\<rparr>]"
    and "wbuf (foldl (tok_char vs pset) s (w @ '' '')) = []"
    and "cur_para_id (foldl (tok_char vs pset) s (w @ '' '')) = cur_para_id s"
proof -
  define s1 where "s1 = foldl (tok_char vs pset) s w"
  from len have ne: "w \<noteq> []" and tk: "take (MAX_WORD_LEN - 1) w = w" by auto
  note rf = run_fields[OF wc e, of vs pset, folded s1_def]
  from rf ne tk have f: "tokens s1 = tokens s" "wbuf s1 = w" "cur_para_id s1 = cur_para_id s"
    "newline_count s1 = 0"
    by simp_all
  have step: "foldl (tok_char vs pset) s (w @ '' '') = tok_char vs pset s1 CHR '' ''"
    by (simp add: s1_def)
  have lw: "take (MAX_WORD_LEN - 1) (lowercase w) = lowercase w"
    using len(2) by (simp add: lowercase_def)
  have "tokens (tok_char vs pset s1 CHR '' '') = tokens s @ [make_token vs pset s1 (lowercase w)]"
    using tok_char_after_word(1)[OF space_not_word_char, of s1 vs pset] ne len(1) al room
    unfolding f by simp
  then show "\<exists>b. tokens (foldl (tok_char vs pset) s (w @ '' '')) =
           tokens s @ [\<lparr>word = lowercase w, is_void = hs_contains vs (lowercase w),
              is_personality = hs_contains pset (lowercase w),
              para_id = cur_para_id s, byte_offset = b\<rparr>]"
    unfolding step make_token_def lw f by blast
  show "wbuf (foldl (tok_char vs pset) s (w @ '' '')) = []"
    unfolding step using space_not_word_char by (rule wbuf_empty_after_separator)
  show "cur_para_id (foldl (tok_char vs pset) s (w @ '' '')) = cur_para_id s"
    unfolding step tok_char_space_fields f ..
qed

lemma tokens_of_words:
  assumes "\<forall>w \<in> set ws. (\<forall>c \<in> set w. is_word_char c) \<and> isalpha (hd w) \<and> 2 \<le> length w
             \<and> length w < MAX_WORD_LEN"
    and "wbuf s = []" and "length (tokens s) + length ws \<le> MAX_TOKENS"
  shows "map word (tokens (foldl (tok_char vs pset) s (concat (map (\<lambda>w. w @ '' '') ws))))
           = map word (tokens s) @ map lowercase ws
    \<and> map is_void (tokens (foldl (tok_char vs pset) s (concat (map (\<lambda>w. w @ '' '') ws))))
           = map is_void (tokens s) @ map (\<lambda>w. hs_contains vs (lowercase w)) ws
    \<and> map is_personality (tokens (foldl (tok_char vs pset) s (concat (map (\<lambda>w. w @ '' '') ws))))
           = map is_personality (tokens s) @ map (\<lambda>w. hs_contains pset (lowercase w)) ws
    \<and> wbuf (foldl (tok_char vs pset) s (concat (map (\<lambda>w. w @ '' '') ws))) = []"
  using assms
proof (induction ws arbitrary: s)
  case Nil
  then show ?case by simp
next
  case (Cons w ws)
  define s1 where "s1 = foldl (tok_char vs pset) s (w @ '' '')"
  from Cons.prems have w: "\<forall>c \<in> set w. is_word_char c" "isalpha (hd w)" "2 \<le> length w"
    "length w < MAX_WORD_LEN" and room: "length (tokens s) < MAX_TOKENS"
    by simp_all
  note ws = word_then_space[OF w Cons.prems(2) room, of vs pset, folded s1_def]
  from ws(1) obtain b where t1: "tokens s1 =
           tokens s @ [\<lparr>word = lowercase w, is_void = hs_contains vs (lowercase w),
              is_personality = hs_contains pset (lowercase w),
              para_id = cur_para_id s, byte_offset = b\<rparr>]" by blast
  have st: "foldl (tok_char vs pset) s (concat (map (\<lambda>w. w @ '' '') (w # ws)))
      = foldl (tok_char vs pset) s1 (concat (map (\<lambda>w. w @ '' '') ws))"
    by (simp add: s1_def)
  have "length (tokens s1) + length ws \<le> MAX_TOKENS"
    using Cons.prems(3) t1 by simp
  with Cons.prems(1) ws(2) have ih:
    "map word (tokens (foldl (tok_char vs pset) s1 (concat (map (\<lambda>w. w @ '' '') ws))))
           = map word (tokens s1) @ map lowercase ws
    \<and> map is_void (tokens (foldl (tok_char vs pset) s1 (concat (map (\<lambda>w. w @ '' '') ws))))
           = map is_void (tokens s1) @ map (\<lambda>w. hs_contains vs (lowercase w)) ws
    \<and> map is_personality (tokens (foldl (tok_char vs pset) s1 (concat (map (\<lambda>w. w @ '' '') ws))))
           = map is_personality (tokens s1) @ map (\<lambda>w. hs_contains pset (lowercase w)) ws
    \<and> wbuf (foldl (tok_char vs pset) s1 (concat (map (\<lambda>w. w @ '' '') ws))) = []"
    by (intro Cons.IH) simp_all
  show ?case unfolding st using ih by (simp add: t1)
qed

lemma tokenize_words:
  assumes "\<forall>w \<in> set ws. (\<forall>c \<in> set w. is_word_char c) \<and> isalpha (hd w) \<and> 2 \<le> length w
             \<and> length w < MAX_WORD_LEN"
    and "length ws \<le> MAX_TOKENS"
  shows "map word (tokens (tokenize vs pset [concat (map (\<lambda>w. w @ '' '') ws)])) = map lowercase ws"
    and "map is_void (tokens (tokenize vs pset [concat (map (\<lambda>w. w @ '' '') ws)]))
           = map (\<lambda>w. hs_contains vs (lowercase w)) ws"
    and "map is_personality (tokens (tokenize vs pset [concat (map (\<lambda>w. w @ '' '') ws)]))
           = map (\<lambda>w. hs_contains pset (lowercase w)) ws"
proof -
  define s0 where "s0 = tok_init\<lparr>wbuf := [], byte_pos := 0, word_start := 0\<rparr>"
  define s1 where "s1 = foldl (tok_char vs pset) s0 (concat (map (\<lambda>w. w @ '' '') ws))"
  have e: "wbuf s0 = []" and t0: "tokens s0 = []" by (simp_all add: s0_def tok_init_def)
  from assms(2) have "length (tokens s0) + length ws \<le> MAX_TOKENS" by (simp add: t0)
  note tw = tokens_of_words[OF assms(1) e this, of vs pset, folded s1_def]
  have "tok_file vs pset tok_init (concat (map (\<lambda>w. w @ '' '') ws)) = s1"
    unfolding tok_file_def Let_def s0_def[symmetric] s1_def[symmetric] using tw by simp
  then have tk: "tokens (tokenize vs pset [concat (map (\<lambda>w. w @ '' '') ws)]) = tokens s1"
    by (simp add: tokenize_def close_final_def Let_def)
  show "map word (tokens (tokenize vs pset [concat (map (\<lambda>w. w @ '' '') ws)])) = map lowercase ws"
    and "map is_void (tokens (tokenize vs pset [concat (map (\<lambda>w. w @ '' '') ws)]))
           = map (\<lambda>w. hs_contains vs (lowercase w)) ws"
    and "map is_personality (tokens (tokenize vs pset [concat (map (\<lambda>w. w @ '' '') ws)]))
           = map (\<lambda>w. hs_contains pset (lowercase w)) ws"
    unfolding tk using tw by (simp_all add: t0)
qed

section \<open>The hit log\<close>

lemma run_log:
  assumes "run void_set pers_set tech_set window inputs = Inr r"
  shows "hits (r_counts r) =
       take MAX_HIT_LOG (map (classify_hit tech_set (r_tokens r) window) (hit_indices (r_tokens r)))"
    and "total_void (r_counts r) = length (hit_indices (r_tokens r))"
    and "length (hits (r_counts r)) = min (total_void (r_counts r)) MAX_HIT_LOG"
proof -
  define s where "s = tokenize void_set pers_set inputs"
  define st where "st = classify_loop tech_set window (tokens s) (n_paragraphs s) 0
      (classify_init (paragraphs s))"
  note r = run_Inr[OF assms, folded s_def, folded st_def]
  note cnt = classify_loop_counts[of tech_set window "tokens s" "n_paragraphs s" "paragraphs s",
      folded st_def]
  show 1: "hits (r_counts r) =
       take MAX_HIT_LOG (map (classify_hit tech_set (r_tokens r) window) (hit_indices (r_tokens r)))"
    unfolding r cnt(5) hit_indices_def ..
  show 2: "total_void (r_counts r) = length (hit_indices (r_tokens r))"
    unfolding r cnt(1) hit_indices_def ..
  show "length (hits (r_counts r)) = min (total_void (r_counts r)) MAX_HIT_LOG"
    unfolding 1 2 by simp
qed

lemma run_section_sums:
  assumes "run void_set pers_set tech_set window inputs = Inr r"
  shows "sum_list (map void_hits (r_sections r)) = total_void (r_counts r)"
    and "sum_list (map personality_void (r_sections r)) = c_personality_void (r_counts r)"
    and "sum_list (map residual_void (r_sections r)) = c_residual_void (r_counts r)"
    and "c_personality_void (r_counts r) + c_residual_void (r_counts r) = total_void (r_counts r)"
proof -
  define s where "s = tokenize void_set pers_set inputs"
  define toks where "toks = tokens s"
  define np where "np = n_paragraphs s"
  define st where "st = classify_loop tech_set window toks np 0 (classify_init (paragraphs s))"
  define ps where "ps = marker_loop tech_set toks np 0 (c_paragraphs st)"
  define v where "v = (\<lambda>j. is_void (toks ! j))"
  define c where "c = (\<lambda>j. classification (classify_hit tech_set toks window j))"
  note r = run_Inr[OF assms, folded s_def, folded toks_def np_def, folded st_def, folded ps_def]
  have part: "partitions (paragraphs s) np (length toks)"
    unfolding s_def np_def toks_def by (rule partitions_tokenize)
  have zero: "\<And>p. void_hits (paragraphs s p) = 0 \<and> personality_void (paragraphs s p) = 0
      \<and> residual_void (paragraphs s p) = 0"
    unfolding s_def by (rule tokenize_zero)
  note cnt = classify_loop_counts[of tech_set window toks np "paragraphs s", folded st_def]
  note sec = classify_loop_sections[OF part zero, of tech_set window, folded st_def]
  show "sum_list (map void_hits (r_sections r)) = total_void (r_counts r)"
    unfolding r sum_list_sections ps_def
    by (simp add: marker_loop_preserves[where g = void_hits] count_markers_fields sec)
  show "sum_list (map personality_void (r_sections r)) = c_personality_void (r_counts r)"
    unfolding r sum_list_sections ps_def
    by (simp add: marker_loop_preserves[where g = personality_void] count_markers_fields sec)
  show "sum_list (map residual_void (r_sections r)) = c_residual_void (r_counts r)"
    unfolding r sum_list_sections ps_def
    by (simp add: marker_loop_preserves[where g = residual_void] count_markers_fields sec)
  show "c_personality_void (r_counts r) + c_residual_void (r_counts r) = total_void (r_counts r)"
    unfolding r cnt(1,2,4)
    using filter_not_P[of v c "[0 ..< length toks]"] filter_labels[of v "[0 ..< length toks]" c]
    unfolding v_def c_def by simp
qed

lemma filter_all_upt:
  assumes "\<forall>i < n. Q i"
  shows "filter Q [0..<n] = [0..<n]"
  using assms by (simp add: filter_id_conv)

text \<open>
  The corpus of 8193 times the word \<open>void\<close>: the run reports, every token is a hit, and
  there are 8193 of them, one more than the hit log holds.
\<close>

lemma overflow_run:
  obtains r where
    "run (load_cluster None VOID_CLUSTER) (load_cluster None PERSONALITY_MARKERS)
        (load_cluster None TECHNICAL_MARKERS) 15 [concat (replicate 8193 ''void '')] = Inr r"
    and "length (hit_indices (r_tokens r)) = 8193"
proof -
  let ?vs = "load_cluster None VOID_CLUSTER" and ?ps = "load_cluster None PERSONALITY_MARKERS"
    and ?ts = "load_cluster None TECHNICAL_MARKERS"
  define ws where "ws = replicate 8193 ''void''"
  have inp: "concat (replicate 8193 ''void '') = concat (map (\<lambda>w. w @ '' '') ws)"
    by (simp add: ws_def map_replicate)
  define toks where "toks = tokens (tokenize ?vs ?ps [concat (map (\<lambda>w. w @ '' '') ws)])"
  have ok: "\<forall>w \<in> set ws. (\<forall>c \<in> set w. is_word_char c) \<and> isalpha (hd w) \<and> 2 \<le> length w
             \<and> length w < MAX_WORD_LEN"
    by (auto simp: ws_def is_word_char_def isalpha_def MAX_WORD_LEN_def)
  have lenws: "length ws = 8193" by (simp add: ws_def)
  then have cap: "length ws \<le> MAX_TOKENS" by (simp add: MAX_TOKENS_def)
  have lv: "lowercase ''void'' = ''void''" by (simp add: lowercase_def tolower_def)
  have "map is_void toks = map (\<lambda>w. hs_contains ?vs (lowercase w)) ws"
    unfolding toks_def using ok cap by (rule tokenize_words(2))
  also have "\<dots> = replicate 8193 True"
    unfolding ws_def map_replicate lv void_set_contains by (simp add: words_in_sets)
  finally have mv: "map is_void toks = replicate 8193 True" .
  from mv have len: "length toks = 8193"
    by (metis length_map length_replicate)
  have allv: "\<forall>i < 8193. is_void (toks ! i)"
  proof (intro allI impI)
    fix i :: nat assume i: "i < 8193"
    with len have "is_void (toks ! i) = map is_void toks ! i" by simp
    also have "\<dots> = True" unfolding mv using i by simp
    finally show "is_void (toks ! i)" by simp
  qed
  have "hit_indices toks = [0..<8193]"
    unfolding hit_indices_def len using allv by (rule filter_all_upt)
  then have "length (hit_indices toks) = length [0..<(8193::nat)]" by (rule arg_cong)
  then have hi: "length (hit_indices toks) = 8193" by (simp only: length_upt diff_zero)
  from len have ne: "toks \<noteq> []" by auto
  then have "\<exists>r. run ?vs ?ps ?ts 15 [concat (map (\<lambda>w. w @ '' '') ws)] = Inr r"
    unfolding run_def Let_def toks_def by simp
  then obtain r where r: "run ?vs ?ps ?ts 15 [concat (map (\<lambda>w. w @ '' '') ws)] = Inr r" ..
  have rt: "r_tokens r = toks" unfolding toks_def by (rule run_Inr(1)[OF r])
  from r have r': "run ?vs ?ps ?ts 15 [concat (replicate 8193 ''void '')] = Inr r"
    by (simp only: inp)
  from hi have hi': "length (hit_indices (r_tokens r)) = 8193" by (simp only: rt)
  from r' hi' show ?thesis by (rule that)
qed

text \<open>
  C4 (as the code has it). On every run that reports, the hit log holds exactly the
  earliest \<open>MAX_HIT_LOG\<close> hits in corpus order (all of them when there are fewer), so
  \<open>MAX_HIT_LOG\<close> of them when the corpus has more. Every hit is still counted: in
  \<open>total_void\<close>, in the corpus-level Personality and residual counts, and in the
  per-section counts, which sum to \<open>total_void\<close>. Nothing is written to the error stream,
  and the debug listing, when it is printed, is headed by the number of logged hits and
  closes with that number less 100: no output tells that hits beyond the capacity were
  left out of the log.
\<close>

theorem hit_log_keeps_earliest_without_notice:
  assumes "run void_set pers_set tech_set window inputs = Inr r"
  shows "hits (r_counts r) =
       take MAX_HIT_LOG (map (classify_hit tech_set (r_tokens r) window) (hit_indices (r_tokens r)))
   \<and> total_void (r_counts r) = length (hit_indices (r_tokens r))
   \<and> length (hits (r_counts r)) = min (total_void (r_counts r)) MAX_HIT_LOG
   \<and> (MAX_HIT_LOG < total_void (r_counts r) \<longrightarrow> length (hits (r_counts r)) = MAX_HIT_LOG)
   \<and> c_personality_void (r_counts r) + c_residual_void (r_counts r) = total_void (r_counts r)
   \<and> sum_list (map void_hits (r_sections r)) = total_void (r_counts r)
   \<and> sum_list (map personality_void (r_sections r)) + sum_list (map residual_void (r_sections r))
        = total_void (r_counts r)
   \<and> err r = []
   \<and> details_header quiet debug r =
       (if \<not> quiet \<and> debug \<and> 0 < total_void (r_counts r)
        then Some (min (total_void (r_counts r)) MAX_HIT_LOG) else None)
   \<and> details_more quiet debug r =
       (if \<not> quiet \<and> debug \<and> 100 < min (total_void (r_counts r)) MAX_HIT_LOG
        then Some (min (total_void (r_counts r)) MAX_HIT_LOG - 100) else None)"
proof -
  note lg = run_log[OF assms]
  note ss = run_section_sums[OF assms]
  have e: "err r = []" by (rule run_Inr(8)[OF assms])
  have m: "0 < MAX_HIT_LOG" by (simp add: MAX_HIT_LOG_def)
  have dh: "details_header quiet debug r =
       (if \<not> quiet \<and> debug \<and> 0 < total_void (r_counts r)
        then Some (min (total_void (r_counts r)) MAX_HIT_LOG) else None)"
    unfolding details_header_def Let_def lg(3) using m by simp
  have dm: "details_more quiet debug r =
       (if \<not> quiet \<and> debug \<and> 100 < min (total_void (r_counts r)) MAX_HIT_LOG
        then Some (min (total_void (r_counts r)) MAX_HIT_LOG - 100) else None)"
    unfolding details_more_def Let_def lg(3) by auto
  have sp: "sum_list (map personality_void (r_sections r)) + sum_list (map residual_void (r_sections r))
        = total_void (r_counts r)"
    unfolding ss(2,3) by (rule ss(4))
  have ov: "MAX_HIT_LOG < total_void (r_counts r) \<longrightarrow> length (hits (r_counts r)) = MAX_HIT_LOG"
    unfolding lg(3) by simp
  from lg(1,2,3) ov ss(4) ss(1) sp e dh dm show ?thesis by (intro conjI)
qed

theorem hit_log_keeps_earliest_without_notice_witness:
  "\<exists>r. run (load_cluster None VOID_CLUSTER) (load_cluster None PERSONALITY_MARKERS)
          (load_cluster None TECHNICAL_MARKERS) 15 [concat (replicate 8193 ''void '')] = Inr r
     \<and> total_void (r_counts r) = 8193
     \<and> MAX_HIT_LOG < total_void (r_counts r)
     \<and> length (hits (r_counts r)) = MAX_HIT_LOG
     \<and> hits (r_counts r) =
         take MAX_HIT_LOG (map (classify_hit (load_cluster None TECHNICAL_MARKERS) (r_tokens r) 15)
            (hit_indices (r_tokens r)))
     \<and> sum_list (map void_hits (r_sections r)) = total_void (r_counts r)
     \<and> err r = []
     \<and> details_header False True r = Some MAX_HIT_LOG"
proof -
  obtain r where r: "run (load_cluster None VOID_CLUSTER) (load_cluster None PERSONALITY_MARKERS)
        (load_cluster None TECHNICAL_MARKERS) 15 [concat (replicate 8193 ''void '')] = Inr r"
    and hi: "length (hit_indices (r_tokens r)) = 8193"
    by (rule overflow_run)
  note t = hit_log_keeps_earliest_without_notice[OF r, of False True]
  from t have "total_void (r_counts r) = length (hit_indices (r_tokens r))" by (elim conjE)
  then have tv: "total_void (r_counts r) = 8193" by (simp only: hi)
  have big: "MAX_HIT_LOG < total_void (r_counts r)" unfolding tv by (simp add: MAX_HIT_LOG_def)
  from t have "MAX_HIT_LOG < total_void (r_counts r) \<longrightarrow> length (hits (r_counts r)) = MAX_HIT_LOG"
    by (elim conjE)
  with big have lh: "length (hits (r_counts r)) = MAX_HIT_LOG" by (rule rev_mp)
  from t have "details_header False True r =
       (if \<not> False \<and> True \<and> 0 < total_void (r_counts r)
        then Some (min (total_void (r_counts r)) MAX_HIT_LOG) else None)"
    by (elim conjE)
  then have dh: "details_header False True r = Some MAX_HIT_LOG"
    unfolding tv by (simp add: MAX_HIT_LOG_def)
  from t have lg: "hits (r_counts r) =
         take MAX_HIT_LOG (map (classify_hit (load_cluster None TECHNICAL_MARKERS) (r_tokens r) 15)
            (hit_indices (r_tokens r)))"
    by (elim conjE)
  from t have sv: "sum_list (map void_hits (r_sections r)) = total_void (r_counts r)"
    by (elim conjE)
  from t have er: "err r = []" by (elim conjE)
  show ?thesis
    by (intro exI[of _ r] conjI) (fact r tv big lh lg sv er dh)+
qed

text \<open>
  C4 as stated fails: a corpus of 8193 times the word \<open>void\<close> has 8193 hits, one more than
  the log holds. The log keeps 8192 of them, the error stream stays empty, and the debug
  listing reports 8192 hits, 8092 of them beyond the first 100.
\<close>

theorem hit_log_overflow_is_silent:
  "map_sum id (\<lambda>r. (total_void (r_counts r), length (hits (r_counts r)), err r,
                     details_header False True r, details_more False True r))
     (run (load_cluster None VOID_CLUSTER) (load_cluster None PERSONALITY_MARKERS)
        (load_cluster None TECHNICAL_MARKERS) 15 [concat (replicate 8193 ''void '')])
   = Inr (8193, 8192, [], Some 8192, Some 8092)"
proof -
  obtain r where r: "run (load_cluster None VOID_CLUSTER) (load_cluster None PERSONALITY_MARKERS)
        (load_cluster None TECHNICAL_MARKERS) 15 [concat (replicate 8193 ''void '')] = Inr r"
    and hi: "length (hit_indices (r_tokens r)) = 8193"
    by (rule overflow_run)
  note lg = run_log[OF r]
  have tv: "total_void (r_counts r) = 8193" using lg(2) by (simp only: hi)
  have lh: "length (hits (r_counts r)) = 8192" using lg(3) unfolding tv by (simp add: MAX_HIT_LOG_def)
  have er: "err r = []" by (rule run_Inr(8)[OF r])
  have dh: "details_header False True r = Some 8192"
    unfolding details_header_def Let_def lh by simp
  have dm: "details_more False True r = Some 8092"
    unfolding details_more_def Let_def lh by simp
  show ?thesis
    unfolding r by (simp add: tv lh er dh dm)
qed

section \<open>The frequency table of the analyzer\<close>

declare fgets_lines.simps [simp del]



























section \<open>A word list longer than the frequency table\<close>

























end
